theory Spec2Isabelle
  imports Main "HOL-Library.Word"
begin

unbundle bit_operations_syntax

section \<open>Machine types and faults\<close>

text \<open>
  The sources are C for a 64-bit POSIX system: \<open>size_t\<close> and \<open>ssize_t\<close> are 64 bits
  wide, \<open>unsigned int\<close> and \<open>int\<close> 32 bits, \<open>short\<close> 16 bits. Descriptors are C
  \<open>int\<close>s that are only compared, never computed with, so they are modelled as
  \<open>int\<close>. A failed \<open>assert\<close>, a read or write outside an allocated block and a
  dereference of \<open>NULL\<close> or of a freed block and a \<open>free\<close> of a pointer that
  \<open>malloc\<close> did not return end the C program; the model returns them as a \<open>fault\<close>.
\<close>

type_synonym byte = "8 word"
type_synonym size_t = "64 word"
type_synonym short = "16 word"
type_synonym uint = "32 word"

datatype fault = Assert_failed | Out_of_bounds | Null_deref | Invalid_free

section \<open>The pollfd wrapper (readiness registry)\<close>

record pollfd =
  fd :: int
  events :: short
  revents :: short

text \<open>\<open>struct pollfds\<close>; its field \<open>length\<close> is \<open>length_fds\<close> here.\<close>

record pollfds =
  fds :: "pollfd list"
  polled :: uint
  length_fds :: uint
  timeout :: int

text \<open>
  The scan \<open>for (; desc_idx < polled; desc_idx++) if (fds[desc_idx].fd == fd) ...\<close>
  shared by \<open>add_event\<close> and \<open>remove_event\<close>: the first index from \<open>desc_idx\<close> on
  holding \<open>d\<close>, or \<open>n\<close> when there is none. The index stays below \<open>polled\<close>, so it
  cannot wrap and is a \<open>nat\<close>.
\<close>

function scan_fd :: "pollfd list \<Rightarrow> int \<Rightarrow> nat \<Rightarrow> nat \<Rightarrow> nat" where
  "scan_fd fs d desc_idx n =
     (if desc_idx < n
      then (if fd (fs ! desc_idx) = d then desc_idx else scan_fd fs d (Suc desc_idx) n)
      else n)"
  by pat_completeness auto
termination
  by (relation "measure (\<lambda>(fs, d, desc_idx, n). n - desc_idx)") auto

declare scan_fd.simps [simp del]

definition add_event :: "pollfds \<Rightarrow> int \<Rightarrow> short \<Rightarrow> fault + (pollfds \<times> int)" where
  "add_event p d ev =
     (if d < 0 then Inl Assert_failed
      else if polled p = length_fds p then Inr (p, -1)
      else
        let desc_idx = scan_fd (fds p) d 0 (unat (polled p)) in
        if desc_idx < unat (polled p)
        then Inr (p\<lparr>fds := (fds p)[desc_idx := (fds p ! desc_idx)\<lparr>events := ev, revents := 0\<rparr>]\<rparr>, 0)
        else Inr (p\<lparr>fds := (fds p)[unat (polled p) := \<lparr>fd = d, events = ev, revents = 0\<rparr>],
                    polled := polled p + 1\<rparr>, 0))"

text \<open>
  The packing loop of \<open>remove_event\<close>:
  \<^verbatim>\<open>for (idx = desc_idx; idx < polled; idx++) {
    if (fds[idx].fd < 0) continue;
    fds[desc_idx++] = fds[idx];
    fds[idx].fd = -1;
  }\<close>
\<close>

function pack :: "pollfd list \<Rightarrow> nat \<Rightarrow> nat \<Rightarrow> nat \<Rightarrow> pollfd list" where
  "pack fs desc_idx idx n =
     (if idx < n
      then (if fd (fs ! idx) < 0 then pack fs desc_idx (Suc idx) n
            else
              let fs1 = fs[desc_idx := fs ! idx];
                  fs2 = fs1[idx := (fs1 ! idx)\<lparr>fd := -1\<rparr>]
              in pack fs2 (Suc desc_idx) (Suc idx) n)
      else fs)"
  by pat_completeness auto
termination
  by (relation "measure (\<lambda>(fs, desc_idx, idx, n). n - idx)") auto

declare pack.simps [simp del]

definition remove_event :: "pollfds \<Rightarrow> int \<Rightarrow> fault + pollfds" where
  "remove_event p d =
     (if d < 0 then Inl Assert_failed
      else if polled p = 0 then Inr p
      else
        let n = unat (polled p);
            desc_idx = scan_fd (fds p) d 0 n
        in if desc_idx = n then Inr p
           else Inr (p\<lparr>fds := pack ((fds p)[desc_idx := \<lparr>fd = -1, events = 0, revents = 0\<rparr>])
                                    desc_idx desc_idx n,
                       polled := polled p - 1\<rparr>))"

text \<open>
  The watched entries are the first \<open>polled\<close> slots. A registry is well formed when
  the array has \<open>length\<close> slots, at most \<open>length\<close> of them are polled, and every
  polled descriptor is non-negative, as \<open>add_event\<close> asserts of what it stores.
  \<open>add_event\<close> and \<open>remove_event\<close> index the array below \<open>polled\<close>, and at
  \<open>polled\<close> when it is below \<open>length\<close>: inside the array of a well-formed
  registry, which is what the theorems about them assume.
\<close>

definition watched :: "pollfds \<Rightarrow> pollfd list" where
  "watched p = take (unat (polled p)) (fds p)"

definition pollfds_wf :: "pollfds \<Rightarrow> bool" where
  "pollfds_wf p \<longleftrightarrow>
     length (fds p) = unat (length_fds p) \<and> polled p \<le> length_fds p \<and>
     list_all (\<lambda>e. 0 \<le> fd e) (watched p)"

section \<open>The circular byte buffer\<close>

text \<open>
  \<open>struct io_buffer\<close>: \<open>buffer\<close> is the storage block the pointer refers to, its
  field \<open>size\<close> is \<open>size_io\<close> here; \<open>head\<close> and \<open>tail\<close> are running counters that
  are masked with \<open>size - 1\<close> only when the storage is indexed. The pointer
  \<open>buffer\<close> is either the address just behind the header, inside the header's block,
  as \<open>iobuff_alloc\<close> sets it (\<open>buffer + 1\<close>), or the start of a block of its own;
  \<open>own_block\<close> records which of the two, because \<open>realloc\<close> and \<open>free\<close> accept only
  a pointer that the allocator returned and end the program on any other.
\<close>

record io_buffer =
  buffer :: "byte list"
  size_io :: size_t
  head :: size_t
  tail :: size_t
  own_block :: bool

definition size_roundup :: "size_t \<Rightarrow> size_t" where
  "size_roundup sz =
     (if sz AND (sz - 1) \<noteq> 0
      then
        let n1 = sz OR drop_bit 1 sz;
            n2 = n1 OR drop_bit 2 n1;
            n3 = n2 OR drop_bit 4 n2;
            n4 = n3 OR drop_bit 8 n3;
            n5 = n4 OR drop_bit 16 n4;
            n6 = n5 OR drop_bit 32 n5
        in n6 + 1
      else sz)"

text \<open>The static helper \<open>min\<close> on \<open>size_t\<close>.\<close>

definition min_sz :: "size_t \<Rightarrow> size_t \<Rightarrow> size_t" where
  "min_sz a b = (if a < b then a else b)"

text \<open>
  \<open>iobuff_alloc\<close>: one zeroed block for the header and \<open>size_roundup size\<close> bytes of
  storage, the pointer \<open>buffer\<close> set to the address behind the header. The boolean
  says whether \<open>calloc\<close> succeeds; \<open>None\<close> is \<open>NULL\<close>.
\<close>

definition iobuff_alloc :: "size_t \<Rightarrow> bool \<Rightarrow> fault + io_buffer option" where
  "iobuff_alloc sz calloc_ok =
     (if sz AND (sz - 1) \<noteq> 0 then Inl Assert_failed
      else if \<not> calloc_ok then Inr None
      else Inr (Some \<lparr>buffer = replicate (unat (size_roundup sz)) 0,
                       size_io = sz, head = 0, tail = 0, own_block = False\<rparr>))"


definition iobuff_full :: "io_buffer \<Rightarrow> bool" where
  "iobuff_full b \<longleftrightarrow> head b - tail b = size_io b"

text \<open>
  \<open>iobuff_space\<close> returns \<open>int\<close>: the \<open>size_t\<close> value of the conditional expression is
  cut to its low 32 bits.
\<close>

definition iobuff_space :: "io_buffer \<Rightarrow> 32 word" where
  "iobuff_space b =
     ucast (if tail b \<le> head b then size_io b - (head b - tail b) else tail b - head b)"

text \<open>
  \<open>memcpy dst off src n\<close> is \<open>memcpy(dst + off, src, n)\<close>: it writes the first \<open>n\<close>
  bytes of \<open>src\<close> into \<open>dst\<close> from offset \<open>off\<close>, and leaves a block when the range
  does.
\<close>

definition memcpy :: "byte list \<Rightarrow> nat \<Rightarrow> byte list \<Rightarrow> nat \<Rightarrow> fault + byte list" where
  "memcpy dst off src n =
     (if off + n \<le> length dst \<and> n \<le> length src
      then Inr (take off dst @ take n src @ drop (off + n) dst)
      else Inl Out_of_bounds)"

text \<open>
  \<open>send_bytes m off n beyond\<close> is what \<open>send(fd, m + off, n, 0)\<close> is handed: the \<open>n\<close>
  bytes from offset \<open>off\<close> of the block \<open>m\<close>. The kernel reads them; where the range
  leaves the block, they are the bytes that lie behind it in memory, \<open>beyond i\<close> being
  the \<open>i\<close>-th of them (when that memory is not mapped, \<open>send\<close> fails, which is a
  negative result).
\<close>

definition send_bytes :: "byte list \<Rightarrow> nat \<Rightarrow> nat \<Rightarrow> (nat \<Rightarrow> byte) \<Rightarrow> byte list" where
  "send_bytes m off n beyond =
     map (\<lambda>i. if i < length m then m ! i else beyond (i - length m)) [off ..< off + n]"

text \<open>
  \<open>realloc\<close> keeps the old contents up to the smaller of the two sizes; the bytes it
  adds are indeterminate, given here by the environment as \<open>junk\<close> (offset to byte).
\<close>

definition realloc_block :: "byte list \<Rightarrow> nat \<Rightarrow> (nat \<Rightarrow> byte) \<Rightarrow> byte list" where
  "realloc_block m n junk = take n m @ map junk [length m ..< n]"

text \<open>
  The storage \<open>m\<close> after \<open>n1\<close> bytes of \<open>data\<close> are written from offset \<open>off\<close> and the
  next \<open>n2\<close> bytes from offset 0: what two \<open>memcpy\<close> calls leave.
\<close>

definition two_chunks :: "byte list \<Rightarrow> nat \<Rightarrow> byte list \<Rightarrow> nat \<Rightarrow> nat \<Rightarrow> byte list" where
  "two_chunks m off data n1 n2 =
     take n2 (drop n1 data) @ drop n2 (take off m @ take n1 data @ drop (off + n1) m)"

text \<open>
  The copy at the end of \<open>iobuff_append\<close> (from "Wrap around the buffer pointers" on):
  at most two chunks, \<open>head\<close> advanced by what was copied.
\<close>

definition append_copy :: "io_buffer \<Rightarrow> byte list \<Rightarrow> size_t \<Rightarrow> fault + (io_buffer \<times> size_t)" where
  "append_copy b data len =
     (let whead = head b AND (size_io b - 1);
          wtail = tail b AND (size_io b - 1)
      in
        if wtail \<le> whead then
          let first_chunk = min_sz len (size_io b - whead);
              second_chunk = min_sz (len - first_chunk) wtail;
              total = first_chunk + second_chunk
          in case memcpy (buffer b) (unat whead) data (unat first_chunk) of
               Inl e \<Rightarrow> Inl e
             | Inr m1 \<Rightarrow>
                 (case memcpy m1 0 (drop (unat first_chunk) data) (unat second_chunk) of
                    Inl e \<Rightarrow> Inl e
                  | Inr m2 \<Rightarrow> Inr (b\<lparr>buffer := m2, head := head b + total\<rparr>, total))
        else
          let chunk = min_sz len (wtail - whead)
          in case memcpy (buffer b) (unat whead) data (unat chunk) of
               Inl e \<Rightarrow> Inl e
             | Inr m1 \<Rightarrow> Inr (b\<lparr>buffer := m1, head := head b + chunk\<rparr>, chunk))"

text \<open>
  \<open>iobuff_append buffer data length can_reallocate\<close>. \<open>realloc_res\<close> is what
  \<open>realloc\<close> answers if it is called: \<open>None\<close> for \<open>NULL\<close>, otherwise the junk that
  fills the added bytes. \<open>realloc\<close> is passed the pointer \<open>buffer\<close>: when that is
  the address behind the header and not a block of its own, the call ends the
  program. The \<open>int\<close> from \<open>iobuff_space\<close> is converted back to \<open>size_t\<close> (sign
  extension) for \<open>free_space\<close>.
\<close>

definition iobuff_append ::
  "io_buffer \<Rightarrow> byte list \<Rightarrow> size_t \<Rightarrow> bool \<Rightarrow> (nat \<Rightarrow> byte) option \<Rightarrow>
   fault + (io_buffer \<times> size_t)" where
  "iobuff_append b data len can_reallocate realloc_res =
     (if len = 0 \<or> iobuff_full b then Inr (b, 0)
      else
        let free_space = (scast (iobuff_space b) :: size_t) in
        if free_space < len \<and> can_reallocate then
          let new_size = size_roundup (size_io b + len) in
          if \<not> own_block b then Inl Invalid_free
          else
            (case realloc_res of
               None \<Rightarrow> Inr (b, 0)
             | Some junk \<Rightarrow>
                 append_copy (b\<lparr>buffer := realloc_block (buffer b) (unat new_size) junk,
                                size_io := new_size\<rparr>) data len)
        else append_copy b data len)"

text \<open>
  The end of \<open>iobuff_send\<close>, after \<open>send\<close> returned \<open>sent\<close> (an \<open>ssize_t\<close>): a negative
  value is the failure \<open>-1\<close>, otherwise \<open>tail\<close> advances by it.
\<close>

definition send_finish :: "io_buffer \<Rightarrow> size_t \<Rightarrow> byte list \<Rightarrow> io_buffer \<times> size_t \<times> byte list" where
  "send_finish b sent handed =
     (if sent <s 0 then (b, -1, handed) else (b\<lparr>tail := tail b + sent\<rparr>, sent, handed))"

text \<open>
  \<open>iobuff_send client buffer\<close>. \<open>calloc_ok\<close> says whether the temporary block can be
  obtained, \<open>sent\<close> is the value \<open>send\<close> returns, \<open>beyond\<close> the memory behind the block
  \<open>send\<close> is pointed into. The result is the buffer, the returned \<open>ssize_t\<close> and the
  bytes handed to \<open>send\<close> (the \<open>length\<close> bytes from the pointer it is given; none
  when it is not called).
\<close>

definition iobuff_send ::
  "io_buffer \<Rightarrow> bool \<Rightarrow> size_t \<Rightarrow> (nat \<Rightarrow> byte) \<Rightarrow>
   fault + (io_buffer \<times> size_t \<times> byte list)" where
  "iobuff_send b calloc_ok sent beyond =
     (let len = head b - tail b in
      if len = 0 then Inr (b, 0, [])
      else
        let whead = head b AND (size_io b - 1);
            wtail = tail b AND (size_io b - 1)
        in
          if head b < tail b then
            (if \<not> calloc_ok then Inr (b, -1, [])
             else
               let tail_size = size_io b - wtail in
               case memcpy (replicate (unat (size_io b)) 0) 0
                      (drop (unat wtail) (buffer b)) (unat tail_size) of
                 Inl e \<Rightarrow> Inl e
               | Inr w1 \<Rightarrow>
                   (case memcpy w1 (unat tail_size) (buffer b) (unat whead) of
                      Inl e \<Rightarrow> Inl e
                    | Inr buffer_wrap \<Rightarrow>
                        Inr (send_finish b sent (send_bytes buffer_wrap 0 (unat len) beyond))))
          else
            Inr (send_finish b sent (send_bytes (buffer b) (unat wtail) (unat len) beyond)))"

text \<open>
  What a reader of the buffer is owed: the bytes from \<open>tail\<close> up to \<open>head\<close>, each at
  its counter masked with \<open>size - 1\<close>, oldest first.
\<close>

definition pending :: "io_buffer \<Rightarrow> byte list" where
  "pending b =
     map (\<lambda>i. buffer b ! unat ((tail b + of_nat i) AND (size_io b - 1)))
       [0 ..< unat (head b - tail b)]"

text \<open>
  A buffer is well formed when its size is a power of two, the storage has that many
  bytes and at most that many bytes are pending.
\<close>

definition is_pow2 :: "size_t \<Rightarrow> bool" where
  "is_pow2 sz \<longleftrightarrow> (\<exists>k \<in> {..< 64 :: nat}. sz = 2 ^ k)"

definition iobuff_wf :: "io_buffer \<Rightarrow> bool" where
  "iobuff_wf b \<longleftrightarrow>
     is_pow2 (size_io b) \<and> length (buffer b) = unat (size_io b) \<and>
     head b - tail b \<le> size_io b"







section \<open>The server: contexts, accept, disconnect, poll\<close>

text \<open>
  Constants of the system headers and of \<^verbatim>\<open>as_server.h\<close>.
\<close>

definition POLLIN :: short where "POLLIN = 1"
definition POLLOUT :: short where "POLLOUT = 4"
definition POLLHUP :: short where "POLLHUP = 16"
definition BUFFER_SIZE :: size_t where "BUFFER_SIZE = 1024"

text \<open>
  A pointer to an \<open>io_buffer\<close> held by a client context: \<open>NULL\<close>, the header that
  \<open>client_alloc\<close> carves out of the context's own block, or a block of its own from
  \<open>iobuff_alloc\<close>, named by its address.
\<close>

datatype buf_ref = Null | Embedded | Allocated nat

text \<open>
  \<open>struct client_context\<close> with the \<open>fd\<close> of its \<open>client_info\<close>; the fields
  \<open>input\<close> and \<open>output\<close> are \<open>input_buf\<close> and \<open>output_buf\<close> here. Callbacks are
  named by numbers, what they do is a parameter of \<open>as_poll\<close>.
\<close>

record client_context =
  info_fd :: int
  input_buf :: buf_ref
  output_buf :: buf_ref
  event_handler :: nat
  status :: uint

text \<open>
  Modelled from the spec: the descriptor-keyed lookup table of \<^verbatim>\<open>htable.h\<close>, which
  is not among the sources. It maps raw integer descriptors to client pointers.
  \<open>htable_insert\<close> answers with \<open>res\<close>, given by the environment: negative when it
  fails, and then nothing is stored; otherwise the pointer is stored under the key.
  \<open>htable_remove\<close> removes the key, \<open>htable_get\<close> returns the pointer or \<open>NULL\<close>.
\<close>

type_synonym htable = "int \<rightharpoonup> nat"

definition htable_insert :: "htable \<Rightarrow> int \<Rightarrow> nat \<Rightarrow> int \<Rightarrow> htable \<times> int" where
  "htable_insert t key v res = (if res < 0 then (t, res) else (t(key \<mapsto> v), res))"

definition htable_remove :: "htable \<Rightarrow> int \<Rightarrow> htable" where
  "htable_remove t key = t(key := None)"

definition htable_get :: "htable \<Rightarrow> int \<Rightarrow> nat option" where
  "htable_get t key = t key"

text \<open>
  The server and the heap it works on: the listening descriptor, the registry
  (\<open>server->polled\<close>), the hash table \<open>server->contexts\<close> from descriptors to client
  pointers, the server's callback, the live client blocks and buffer blocks by
  address, the open sockets, and the next address the allocator hands out.
\<close>

record state =
  listener :: int
  registry :: pollfds
  contexts :: htable
  srv_handler :: nat
  clients :: "nat \<rightharpoonup> client_context"
  buffers :: "nat \<rightharpoonup> io_buffer"
  open_fds :: "int list"
  brk :: nat

text \<open>
  What the environment answers during one \<open>as_accept\<close>: whether \<open>calloc\<close> succeeds
  in \<open>client_alloc\<close> and in the two \<open>iobuff_alloc\<close> calls, the results of
  \<open>accept\<close>, of the two \<open>fcntl\<close> calls and of \<open>htable_insert\<close> (negative on
  failure), and whether \<open>close\<close> succeeds.
\<close>

record accept_env =
  client_alloc_ok :: bool
  accept_res :: int
  getfl_res :: int
  setfl_res :: int
  insert_res :: int
  input_alloc_ok :: bool
  output_alloc_ok :: bool
  close_ok :: bool

text \<open>
  \<open>client_close\<close> on the \<open>client_info\<close> of the context at \<open>a\<close>: the descriptor is
  closed and set to \<open>INVALID_FD\<close>; when \<open>close\<close> fails it only logs.
\<close>

definition client_close :: "state \<Rightarrow> nat \<Rightarrow> bool \<Rightarrow> fault + state" where
  "client_close s a ok =
     (case clients s a of
        None \<Rightarrow> Inl Null_deref
      | Some c \<Rightarrow>
          if info_fd c < 0 then Inl Assert_failed
          else if \<not> ok then Inr s
          else Inr (s\<lparr>open_fds := removeAll (info_fd c) (open_fds s),
                      clients := (clients s)(a \<mapsto> c\<lparr>info_fd := -1\<rparr>)\<rparr>))"

text \<open>
  \<open>iobuff_free\<close>: asserts the pointer, then calls \<open>free\<close> on the storage pointer and
  on the header. \<open>free\<close> ends the program on a pointer the allocator did not return:
  the storage pointer of a buffer from \<open>iobuff_alloc\<close> is one (the address behind
  the header, inside the header's block), and so is a header inside a client's block.
\<close>

definition iobuff_free :: "state \<Rightarrow> buf_ref \<Rightarrow> fault + state" where
  "iobuff_free s r =
     (case r of
        Null \<Rightarrow> Inl Assert_failed
      | Embedded \<Rightarrow> Inl Invalid_free
      | Allocated k \<Rightarrow>
          (case buffers s k of
             None \<Rightarrow> Inl Invalid_free
           | Some b \<Rightarrow>
               if \<not> own_block b then Inl Invalid_free
               else Inr (s\<lparr>buffers := (buffers s)(k := None)\<rparr>)))"

text \<open>The labels of \<open>as_accept\<close>, each falling through to the next.\<close>

definition error_free :: "state \<Rightarrow> nat \<Rightarrow> state \<times> nat option" where
  "error_free s a = (s\<lparr>clients := (clients s)(a := None)\<rparr>, None)"

definition error_disconnect :: "state \<Rightarrow> nat \<Rightarrow> bool \<Rightarrow> fault + (state \<times> nat option)" where
  "error_disconnect s a ok =
     (case client_close s a ok of Inl e \<Rightarrow> Inl e | Inr s1 \<Rightarrow> Inr (error_free s1 a))"

definition error_in_buffer :: "state \<Rightarrow> nat \<Rightarrow> bool \<Rightarrow> fault + (state \<times> nat option)" where
  "error_in_buffer s a ok =
     (case clients s a of
        None \<Rightarrow> Inl Null_deref
      | Some c \<Rightarrow>
          (case iobuff_free s (input_buf c) of
             Inl e \<Rightarrow> Inl e
           | Inr s1 \<Rightarrow> error_disconnect s1 a ok))"

definition error_out_buffer :: "state \<Rightarrow> nat \<Rightarrow> bool \<Rightarrow> fault + (state \<times> nat option)" where
  "error_out_buffer s a ok =
     (case clients s a of
        None \<Rightarrow> Inl Null_deref
      | Some c \<Rightarrow>
          (case iobuff_free s (output_buf c) of
             Inl e \<Rightarrow> Inl e
           | Inr s1 \<Rightarrow> error_in_buffer s1 a ok))"

text \<open>
  The buffer part of \<open>as_accept\<close>, reached once the context at \<open>a\<close> is in the
  registry and in the table. Each \<open>iobuff_alloc\<close> result is stored in the context
  before it is tested.
\<close>

definition accept_buffers :: "state \<Rightarrow> nat \<Rightarrow> client_context \<Rightarrow> accept_env \<Rightarrow> fault + (state \<times> nat option)" where
  "accept_buffers s a c env =
     (case iobuff_alloc BUFFER_SIZE (input_alloc_ok env) of
        Inl e \<Rightarrow> Inl e
      | Inr None \<Rightarrow>
          error_in_buffer (s\<lparr>clients := (clients s)(a \<mapsto> c\<lparr>input_buf := Null\<rparr>)\<rparr>) a (close_ok env)
      | Inr (Some bi) \<Rightarrow>
          let ki = brk s;
              c1 = c\<lparr>input_buf := Allocated ki\<rparr>;
              s1 = s\<lparr>buffers := (buffers s)(ki \<mapsto> bi\<lparr>size_io := BUFFER_SIZE\<rparr>),
                     clients := (clients s)(a \<mapsto> c1), brk := Suc ki\<rparr>
          in
            (case iobuff_alloc BUFFER_SIZE (output_alloc_ok env) of
               Inl e \<Rightarrow> Inl e
             | Inr None \<Rightarrow>
                 error_out_buffer
                   (s1\<lparr>clients := (clients s1)(a \<mapsto> c1\<lparr>output_buf := Null\<rparr>)\<rparr>) a (close_ok env)
             | Inr (Some bo) \<Rightarrow>
                 let ko = brk s1;
                     c2 = c1\<lparr>output_buf := Allocated ko\<rparr>
                 in Inr (s1\<lparr>buffers := (buffers s1)(ko \<mapsto> bo\<lparr>size_io := BUFFER_SIZE\<rparr>),
                           clients := (clients s1)(a \<mapsto> c2), brk := Suc ko\<rparr>, Some a)))"

text \<open>
  \<open>as_accept server handler\<close>. The result is the client pointer, \<open>None\<close> for \<open>NULL\<close>.
\<close>

definition as_accept :: "state \<Rightarrow> nat \<Rightarrow> accept_env \<Rightarrow> fault + (state \<times> nat option)" where
  "as_accept s handler env =
     (if \<not> client_alloc_ok env then Inr (s, None)
      else
        let a = brk s;
            c0 = \<lparr>info_fd = 0, input_buf = Embedded, output_buf = Embedded,
                  event_handler = handler, status = 0\<rparr>;
            s0 = s\<lparr>clients := (clients s)(a \<mapsto> c0), brk := Suc a\<rparr>
        in
          if accept_res env < 0
          then Inr (error_free (s0\<lparr>clients := (clients s0)(a \<mapsto> c0\<lparr>info_fd := accept_res env\<rparr>)\<rparr>) a)
          else
            let c = c0\<lparr>info_fd := accept_res env\<rparr>;
                s1 = s0\<lparr>clients := (clients s0)(a \<mapsto> c),
                       open_fds := accept_res env # open_fds s0\<rparr>
            in
              if getfl_res env < 0 then error_disconnect s1 a (close_ok env)
              else if setfl_res env < 0 then error_disconnect s1 a (close_ok env)
              else
                (case add_event (registry s1) (info_fd c) (POLLIN OR POLLOUT OR POLLHUP) of
                   Inl e \<Rightarrow> Inl e
                 | Inr (p, r) \<Rightarrow>
                     let s2 = s1\<lparr>registry := p\<rparr> in
                     if r < 0 then error_disconnect s2 a (close_ok env)
                     else
                       let (t, ri) = htable_insert (contexts s2) (info_fd c) a (insert_res env);
                           s3 = s2\<lparr>contexts := t\<rparr>
                       in if ri < 0 then error_disconnect s3 a (close_ok env)
                          else accept_buffers s3 a c env))"

text \<open>
  \<open>as_disconnect server client\<close> for the client pointer \<open>a\<close>.
\<close>

definition as_disconnect :: "state \<Rightarrow> nat \<Rightarrow> bool \<Rightarrow> fault + state" where
  "as_disconnect s a ok =
     (case clients s a of
        None \<Rightarrow> Inl Null_deref
      | Some c \<Rightarrow>
          (case remove_event (registry s) (info_fd c) of
             Inl e \<Rightarrow> Inl e
           | Inr p \<Rightarrow>
               let s1 = s\<lparr>registry := p,
                          contexts := htable_remove (contexts s) (info_fd c)\<rparr> in
               (case client_close s1 a ok of
                  Inl e \<Rightarrow> Inl e
                | Inr s2 \<Rightarrow> Inr (s2\<lparr>clients := (clients s2)(a := None)\<rparr>))))"

text \<open>
  Callbacks. A callback gets the server or a client pointer and the observed events,
  and may change the whole state or end the program. The calls \<open>as_poll\<close> makes are
  recorded in order: the server callback with its events, or a client callback with
  the registry slot, the client pointer and the events.
\<close>

datatype target = Server | Client nat

datatype call = Server_call short | Client_call nat nat short

type_synonym callbacks = "nat \<Rightarrow> target \<Rightarrow> short \<Rightarrow> state \<Rightarrow> fault + state"

text \<open>
  \<open>poll(2)\<close> writes the observed events \<open>rv i\<close> into each of the first \<open>polled\<close>
  slots.
\<close>

definition poll_write :: "pollfds \<Rightarrow> (nat \<Rightarrow> short) \<Rightarrow> pollfds" where
  "poll_write p rv =
     p\<lparr>fds := map (\<lambda>i. if i < unat (polled p) then (fds p ! i)\<lparr>revents := rv i\<rparr> else fds p ! i)
                 [0 ..< length (fds p)]\<rparr>"

text \<open>
  The client loop of \<open>as_poll\<close>, from slot \<open>i\<close> on; \<open>polled\<close> and the slots are read
  afresh in every round, after the callbacks of the earlier rounds.
\<close>

function poll_loop :: "callbacks \<Rightarrow> nat \<Rightarrow> state \<Rightarrow> call list \<Rightarrow> fault + (state \<times> call list)" where
  "poll_loop cb i s tr =
     (if i < unat (polled (registry s)) then
        (if length (fds (registry s)) \<le> i then Inl Out_of_bounds
         else
           let pf = fds (registry s) ! i in
           if revents pf = 0 then poll_loop cb (Suc i) s tr
           else
             (case htable_get (contexts s) (fd pf) of
                None \<Rightarrow> Inl Null_deref
              | Some a \<Rightarrow>
                  (case clients s a of
                     None \<Rightarrow> Inl Null_deref
                   | Some c \<Rightarrow>
                       (case cb (event_handler c) (Client a) (revents pf) s of
                          Inl e \<Rightarrow> Inl e
                        | Inr s1 \<Rightarrow>
                            poll_loop cb (Suc i) s1 (tr @ [Client_call i a (revents pf)])))))
      else Inr (s, tr))"
  by pat_completeness auto
termination
proof -
  have bound: "4294967295 - i < 4294967296 - i" if "i < unat w" for i and w :: uint
  proof -
    have "unat w < 4294967296"
      using unsigned_less [of w, where ?'a = nat] by simp
    with that show ?thesis by simp
  qed
  show ?thesis
    by (relation "measure (\<lambda>(cb, i, s, tr). 4294967296 - i)") (simp_all add: bound)
qed

declare poll_loop.simps [simp del]

text \<open>
  \<open>as_poll server data\<close>: \<open>poll_result\<close> and \<open>rv\<close> are what \<open>poll\<close> returns and
  observes. The result is the returned \<open>int\<close>, the state and the calls made.
\<close>

definition as_poll ::
  "callbacks \<Rightarrow> state \<Rightarrow> int \<Rightarrow> (nat \<Rightarrow> short) \<Rightarrow> fault + (int \<times> state \<times> call list)" where
  "as_poll cb s poll_result rv =
     (if poll_result < 0 then Inr (-1, s, [])
      else
        let s1 = s\<lparr>registry := poll_write (registry s) rv\<rparr> in
        (case fds (registry s1) of
           [] \<Rightarrow> Inl Out_of_bounds
         | e0 # rest \<Rightarrow>
             let server_events = revents e0 in
             (case (if server_events \<noteq> 0
                    then (case cb (srv_handler s1) Server server_events s1 of
                            Inl e \<Rightarrow> Inl e
                          | Inr s2 \<Rightarrow> Inr (s2, [Server_call server_events]))
                    else Inr (s1, [])) of
                Inl e \<Rightarrow> Inl e
              | Inr (s2, tr) \<Rightarrow>
                  (case poll_loop cb 1 s2 tr of
                     Inl e \<Rightarrow> Inl e
                   | Inr (s3, tr') \<Rightarrow> Inr (0, s3, tr')))))"

section \<open>Concrete registries, buffers and states\<close>

text \<open>A registry of four slots watching the descriptors 3, 5 and 7.\<close>

definition reg3 :: pollfds where
  "reg3 = \<lparr>fds = [\<lparr>fd = 3, events = 3, revents = 0\<rparr>, \<lparr>fd = 5, events = 1, revents = 1\<rparr>,
                  \<lparr>fd = 7, events = 5, revents = 4\<rparr>, \<lparr>fd = -1, events = 0, revents = 0\<rparr>],
           polled = 3, length_fds = 4, timeout = -1\<rparr>"

text \<open>A full registry of one slot, watching the descriptor 3.\<close>

definition reg_full :: pollfds where
  "reg_full = \<lparr>fds = [\<lparr>fd = 3, events = 1, revents = 0\<rparr>],
               polled = 1, length_fds = 1, timeout = -1\<rparr>"

text \<open>
  Buffers of size 8 as \<open>iobuff_alloc\<close> makes them, the storage behind the header.
  \<open>buf_drained\<close> has had the six bytes \<open>abcdef\<close> appended and
  sent; \<open>buf_wrapped\<close> is what appending \<open>ghij\<close> makes of it: \<open>gh\<close> in the last two
  bytes of the storage, \<open>ij\<close> in the first two. \<open>buf_overflown\<close> holds three bytes
  across the point where \<open>head\<close> itself has wrapped around \<open>2 ^ 64\<close>.
\<close>

definition buf_drained :: io_buffer where
  "buf_drained = \<lparr>buffer = [97, 98, 99, 100, 101, 102, 0, 0], size_io = 8, head = 6, tail = 6,
                   own_block = False\<rparr>"

definition buf_wrapped :: io_buffer where
  "buf_wrapped = \<lparr>buffer = [105, 106, 99, 100, 101, 102, 103, 104], size_io = 8,
                   head = 10, tail = 6, own_block = False\<rparr>"

definition buf_overflown :: io_buffer where
  "buf_overflown = \<lparr>buffer = [105, 106, 99, 100, 101, 102, 103, 104], size_io = 8,
                     head = 1, tail = 18446744073709551614, own_block = False\<rparr>"



definition buf_full :: io_buffer where
  "buf_full = \<lparr>buffer = [105, 106, 1, 2, 3, 4, 103, 104], size_io = 8, head = 14, tail = 6,
                own_block = False\<rparr>"




text \<open>
  A server listening on descriptor 3 with no client, and an environment in which
  \<open>accept\<close> returns descriptor 5 and nothing fails.
\<close>

definition srv0 :: state where
  "srv0 = \<lparr>listener = 3,
            registry = \<lparr>fds = [\<lparr>fd = 3, events = 3, revents = 0\<rparr>,
                               \<lparr>fd = -1, events = 0, revents = 0\<rparr>,
                               \<lparr>fd = -1, events = 0, revents = 0\<rparr>,
                               \<lparr>fd = -1, events = 0, revents = 0\<rparr>],
                        polled = 1, length_fds = 4, timeout = -1\<rparr>,
            contexts = Map.empty, srv_handler = 0, clients = Map.empty,
            buffers = Map.empty, open_fds = [3], brk = 0\<rparr>"

definition env_ok :: accept_env where
  "env_ok = \<lparr>client_alloc_ok = True, accept_res = 5, getfl_res = 2, setfl_res = 0,
              insert_res = 0, input_alloc_ok = True, output_alloc_ok = True,
              close_ok = True\<rparr>"

text \<open>The registry slot of a recorded client call (0 for the server's call).\<close>

fun call_slot :: "call \<Rightarrow> nat" where
  "call_slot (Server_call ev) = 0"
| "call_slot (Client_call i a ev) = i"

text \<open>
  The client call \<open>as_poll\<close> makes for slot \<open>i\<close> of a state: the context the table
  gives for the slot's descriptor, with the slot's observed events.
\<close>

definition slot_call :: "state \<Rightarrow> nat \<Rightarrow> call" where
  "slot_call s i =
     Client_call i (the (htable_get (contexts s) (fd (fds (registry s) ! i))))
       (revents (fds (registry s) ! i))"

text \<open>
  A server with the clients 5 and 7, their contexts at the addresses 10 and 11, and
  callbacks that only set the \<open>status\<close> of the client they are called for.
\<close>

definition srv2 :: state where
  "srv2 = \<lparr>listener = 3, registry = reg3,
            contexts = [5 \<mapsto> 10, 7 \<mapsto> 11], srv_handler = 0,
            clients = [10 \<mapsto> \<lparr>info_fd = 5, input_buf = Allocated 20, output_buf = Allocated 21,
                                event_handler = 1, status = 0\<rparr>,
                       11 \<mapsto> \<lparr>info_fd = 7, input_buf = Allocated 22, output_buf = Allocated 23,
                                event_handler = 1, status = 0\<rparr>],
            buffers = Map.empty, open_fds = [7, 5, 3], brk = 30\<rparr>"

definition mark_status :: callbacks where
  "mark_status h t ev s =
     (case t of
        Server \<Rightarrow> Inr s
      | Client a \<Rightarrow>
          (case clients s a of
             None \<Rightarrow> Inl Null_deref
           | Some c \<Rightarrow> Inr (s\<lparr>clients := (clients s)(a \<mapsto> c\<lparr>status := ucast ev\<rparr>)\<rparr>)))"

text \<open>
  Callbacks that leave the registry and the table as they are.
\<close>

definition keeps_dispatch :: "callbacks \<Rightarrow> bool" where
  "keeps_dispatch cb \<longleftrightarrow>
     (\<forall>h t ev u u'. cb h t ev u = Inr u' \<longrightarrow>
        registry u' = registry u \<and> contexts u' = contexts u)"

text \<open>
  What a list of client calls has to be for the slots from \<open>i\<close> on, read against
  the states the callbacks produce: \<open>client_calls cb i s cls s'\<close> holds when the
  first call is for the first slot from \<open>i\<close> on whose observed mask is not zero in
  \<open>s\<close>, with that mask and the context the table gives for the slot's descriptor,
  when the callback of that context, run on \<open>s\<close>, returns a state from which the
  remaining calls are right for the slots behind that one, and when after the last
  call every remaining watched slot shows the mask zero and the state is \<open>s'\<close>.
\<close>

fun client_calls :: "callbacks \<Rightarrow> nat \<Rightarrow> state \<Rightarrow> call list \<Rightarrow> state \<Rightarrow> bool" where
  "client_calls cb i s [] s' \<longleftrightarrow>
     s' = s \<and>
     list_all (\<lambda>k. k < length (fds (registry s)) \<and> revents (fds (registry s) ! k) = 0)
       [i ..< unat (polled (registry s))]"
| "client_calls cb i s (Server_call ev # cs) s' \<longleftrightarrow> False"
| "client_calls cb i s (Client_call j a ev # cs) s' \<longleftrightarrow>
     i \<le> j \<and> j < unat (polled (registry s)) \<and> j < length (fds (registry s)) \<and>
     list_all (\<lambda>k. revents (fds (registry s) ! k) = 0) [i ..< j] \<and>
     ev \<noteq> 0 \<and> revents (fds (registry s) ! j) = ev \<and>
     htable_get (contexts s) (fd (fds (registry s) ! j)) = Some a \<and>
     (case clients s a of
        None \<Rightarrow> False
      | Some c \<Rightarrow>
          (case cb (event_handler c) (Client a) ev s of
             Inl e \<Rightarrow> False
           | Inr s1 \<Rightarrow> client_calls cb (Suc j) s1 cs s'))"

section \<open>The registry: scanning, updating, removing\<close>

lemma scan_fd_takeWhile:
  "desc_idx \<le> n \<Longrightarrow> n \<le> length fs \<Longrightarrow>
   scan_fd fs d desc_idx n = desc_idx + length (takeWhile (\<lambda>e. fd e \<noteq> d) (drop desc_idx (take n fs)))"
proof (induction fs d desc_idx n rule: scan_fd.induct)
  case (1 fs d desc_idx n)
  show ?case
  proof (cases "desc_idx < n")
    case True
    then have dr: "drop desc_idx (take n fs) = fs ! desc_idx # drop (Suc desc_idx) (take n fs)"
      using "1.prems" by (metis Cons_nth_drop_Suc length_take min.absorb2 nth_take)
    show ?thesis
    proof (cases "fd (fs ! desc_idx) = d")
      case True
      with \<open>desc_idx < n\<close> dr show ?thesis by (simp add: scan_fd.simps [of fs d desc_idx n])
    next
      case False
      with \<open>desc_idx < n\<close> dr "1.IH" "1.prems" show ?thesis
        by (simp add: scan_fd.simps [of fs d desc_idx n])
    qed
  next
    case False
    with "1.prems" show ?thesis by (subst scan_fd.simps) simp
  qed
qed

lemma scan_fd_watched:
  "pollfds_wf p \<Longrightarrow>
   scan_fd (fds p) d 0 (unat (polled p)) = length (takeWhile (\<lambda>e. fd e \<noteq> d) (watched p))"
  using scan_fd_takeWhile [of 0 "unat (polled p)" "fds p" d]
  by (simp add: pollfds_wf_def watched_def word_le_nat_alt)

lemma length_watched: "pollfds_wf p \<Longrightarrow> length (watched p) = unat (polled p)"
  by (simp add: pollfds_wf_def watched_def word_le_nat_alt)

lemma takeWhile_found:
  "d \<in> fd ` set xs \<Longrightarrow> length (takeWhile (\<lambda>e. fd e \<noteq> d) xs) < length xs \<and>
     fd (xs ! length (takeWhile (\<lambda>e. fd e \<noteq> d) xs)) = d"
  by (induction xs) auto

lemma takeWhile_missing:
  "d \<notin> fd ` set xs \<Longrightarrow> length (takeWhile (\<lambda>e. fd e \<noteq> d) xs) = length xs"
  by (induction xs) auto

lemma pack_shift:
  "idx = Suc j \<Longrightarrow> idx \<le> n \<Longrightarrow> n \<le> length fs \<Longrightarrow>
   list_all (\<lambda>e. 0 \<le> fd e) (drop idx (take n fs)) \<Longrightarrow> fd (fs ! j) = -1 \<Longrightarrow>
   length (pack fs j idx n) = length fs \<and>
   take (n - 1) (pack fs j idx n) = take j fs @ drop idx (take n fs) \<and>
   fd (pack fs j idx n ! (n - 1)) = -1 \<and>
   drop n (pack fs j idx n) = drop n fs"
proof (induction fs j idx n rule: pack.induct)
  case (1 fs j idx n)
  show ?case
  proof (cases "idx < n")
    case False
    with "1.prems" have "idx = n" by simp
    have "pack fs j idx n = fs" using False by (subst pack.simps) simp
    moreover have "n - 1 = j" using \<open>idx = n\<close> "1.prems" by simp
    ultimately show ?thesis using \<open>idx = n\<close> "1.prems"
      by simp
  next
    case True
    define fs1 where "fs1 = fs[j := fs ! idx]"
    define fs2 where "fs2 = fs1[idx := (fs1 ! idx)\<lparr>fd := -1\<rparr>]"
    from True "1.prems" have dr: "drop idx (take n fs) = fs ! idx # drop (Suc idx) (take n fs)"
      by (metis Cons_nth_drop_Suc length_take min.absorb2 nth_take)
    with "1.prems" have live: "\<not> fd (fs ! idx) < 0"
      and rest: "list_all (\<lambda>e. 0 \<le> fd e) (drop (Suc idx) (take n fs))"
      by auto
    have unfold: "pack fs j idx n = pack fs2 (Suc j) (Suc idx) n"
      using True live by (subst pack.simps) (simp add: fs1_def fs2_def Let_def)
    have len2: "length fs2 = length fs" by (simp add: fs1_def fs2_def)
    have same: "drop (Suc idx) fs2 = drop (Suc idx) fs"
      using "1.prems" by (simp add: fs1_def fs2_def)
    have same_take: "drop (Suc idx) (take n fs2) = drop (Suc idx) (take n fs)"
      using same by (simp add: drop_take)
    have front: "take (Suc j) fs2 = take j fs @ [fs ! idx]"
      using "1.prems" True by (simp add: fs1_def fs2_def take_Suc_conv_app_nth)
    have hole: "fd (fs2 ! Suc j) = -1"
      using "1.prems" True by (simp add: fs1_def fs2_def)
    have ih: "length (pack fs2 (Suc j) (Suc idx) n) = length fs2 \<and>
      take (n - 1) (pack fs2 (Suc j) (Suc idx) n) = take (Suc j) fs2 @ drop (Suc idx) (take n fs2) \<and>
      fd (pack fs2 (Suc j) (Suc idx) n ! (n - 1)) = -1 \<and>
      drop n (pack fs2 (Suc j) (Suc idx) n) = drop n fs2"
      using "1.IH"(2) [OF True live fs1_def fs2_def] "1.prems" True len2 same_take rest hole
      by simp
    have tail_same: "drop n fs2 = drop n fs"
      using True "1.prems" by (simp add: fs1_def fs2_def)
    show ?thesis
      using ih unfold len2 same_take front dr tail_same by simp
  qed
qed

lemma drop_first_match:
  "takeWhile P xs @ tl (dropWhile P xs) =
   take (length (takeWhile P xs)) xs @ drop (Suc (length (takeWhile P xs))) xs"
  by (induction xs) auto

lemma remove_event_found:
  assumes wf: "pollfds_wf p" and mem: "d \<in> fd ` set (watched p)"
  shows "\<exists>p'. remove_event p d = Inr p' \<and>
            Suc (unat (polled p')) = unat (polled p) \<and>
            watched p' = takeWhile (\<lambda>e. fd e \<noteq> d) (watched p) @
                         tl (dropWhile (\<lambda>e. fd e \<noteq> d) (watched p)) \<and>
            pollfds_wf p' \<and> fd (fds p' ! unat (polled p')) = -1 \<and>
            length_fds p' = length_fds p \<and>
            drop (unat (polled p)) (fds p') = drop (unat (polled p)) (fds p)"
proof -
  define n where "n = unat (polled p)"
  define i where "i = length (takeWhile (\<lambda>e. fd e \<noteq> d) (watched p))"
  define fs0 where "fs0 = (fds p)[i := \<lparr>fd = -1, events = 0, revents = 0\<rparr>]"
  define r where "r = pack fs0 i i n"
  have lw: "length (watched p) = n" using wf by (simp add: length_watched n_def)
  have nlen: "n \<le> length (fds p)"
    using wf by (simp add: pollfds_wf_def n_def word_le_nat_alt)
  have live: "list_all (\<lambda>e. 0 \<le> fd e) (take n (fds p))"
    using wf by (simp add: pollfds_wf_def watched_def n_def)
  from takeWhile_found [OF mem] lw have i_lt: "i < n" by (simp add: i_def)
  from mem wf have d0: "\<not> d < 0"
    by (auto simp: pollfds_wf_def list_all_iff)
  from i_lt have pne: "polled p \<noteq> 0" by (auto simp: n_def)
  have scan: "scan_fd (fds p) d 0 (unat (polled p)) = i"
    using scan_fd_watched [OF wf] by (simp add: i_def)
  have rem: "remove_event p d = Inr (p\<lparr>fds := r, polled := polled p - 1\<rparr>)"
    using d0 pne scan i_lt
    by (simp add: remove_event_def Let_def r_def fs0_def n_def)
  have first: "pack fs0 i i n = pack fs0 i (Suc i) n"
    using i_lt nlen by (subst pack.simps) (simp add: fs0_def)
  have rest: "list_all (\<lambda>e. 0 \<le> fd e) (drop (Suc i) (take n fs0))"
  proof -
    have "drop (Suc i) (take n fs0) = drop (Suc i) (take n (fds p))"
      by (simp add: fs0_def drop_take)
    moreover have "set (drop (Suc i) (take n (fds p))) \<subseteq> set (take n (fds p))"
      by (rule set_drop_subset)
    ultimately show ?thesis using live by (auto simp: list_all_iff)
  qed
  have hole: "fd (fs0 ! i) = -1" using i_lt nlen by (simp add: fs0_def)
  have sh: "length r = length fs0 \<and>
            take (n - 1) r = take i fs0 @ drop (Suc i) (take n fs0) \<and>
            fd (r ! (n - 1)) = -1 \<and> drop n r = drop n fs0"
    unfolding r_def first
    using pack_shift [of "Suc i" i n fs0] i_lt nlen rest hole by (simp add: fs0_def)
  have un: "unat (polled p - 1) = n - 1"
    using pne by (simp add: n_def unat_minus_one)
  have tk: "take (n - 1) r = take i (watched p) @ drop (Suc i) (watched p)"
  proof -
    have "take i fs0 = take i (take n (fds p))" using i_lt by (simp add: fs0_def min_def)
    moreover have "drop (Suc i) (take n fs0) = drop (Suc i) (take n (fds p))"
      by (simp add: fs0_def drop_take)
    ultimately show ?thesis using sh by (simp add: watched_def n_def)
  qed
  have w': "watched (p\<lparr>fds := r, polled := polled p - 1\<rparr>) =
            takeWhile (\<lambda>e. fd e \<noteq> d) (watched p) @ tl (dropWhile (\<lambda>e. fd e \<noteq> d) (watched p))"
    using tk un by (simp add: watched_def drop_first_match i_def)
  have sub: "set (take i (watched p) @ drop (Suc i) (watched p)) \<subseteq> set (watched p)"
    using set_take_subset [of i "watched p"] set_drop_subset [of "Suc i" "watched p"] by auto
  have wf': "pollfds_wf (p\<lparr>fds := r, polled := polled p - 1\<rparr>)"
  proof -
    have "list_all (\<lambda>e. 0 \<le> fd e) (take (n - 1) r)"
      using sub live tk by (auto simp: list_all_iff watched_def n_def)
    moreover have "polled p - 1 \<le> length_fds p"
      using wf un by (auto simp: pollfds_wf_def word_le_nat_alt n_def)
    moreover have "length r = unat (length_fds p)"
      using sh wf by (simp add: fs0_def pollfds_wf_def)
    ultimately show ?thesis using un by (simp add: pollfds_wf_def watched_def)
  qed
  have "drop n r = drop n (fds p)" using sh i_lt by (simp add: fs0_def)
  with rem w' wf' un sh i_lt show ?thesis by (simp add: n_def)
qed

lemma remove_event_missing:
  assumes wf: "pollfds_wf p" and d0: "0 \<le> d" and nomem: "d \<notin> fd ` set (watched p)"
  shows "remove_event p d = Inr p"
proof -
  have "scan_fd (fds p) d 0 (unat (polled p)) = unat (polled p)"
    using scan_fd_watched [OF wf] takeWhile_missing [OF nomem] length_watched [OF wf] by simp
  with d0 show ?thesis by (simp add: remove_event_def Let_def)
qed

lemma update_as_map:
  assumes "distinct (map fd xs)" "i < length xs" "fd (xs ! i) = d"
  shows "xs[i := g (xs ! i)] = map (\<lambda>e. if fd e = d then g e else e) xs"
proof (rule nth_equalityI)
  show "length (xs[i := g (xs ! i)]) = length (map (\<lambda>e. if fd e = d then g e else e) xs)"
    by simp
next
  fix k assume "k < length (xs[i := g (xs ! i)])"
  then have k: "k < length xs" by simp
  show "xs[i := g (xs ! i)] ! k = map (\<lambda>e. if fd e = d then g e else e) xs ! k"
  proof (cases "k = i")
    case True
    with assms show ?thesis by simp
  next
    case False
    have "map fd xs ! k \<noteq> map fd xs ! i"
      using assms(1,2) k False nth_eq_iff_index_eq [of "map fd xs" k i] by simp
    with assms k False show ?thesis by simp
  qed
qed

lemma filter_hit_map:
  assumes "distinct (map fd xs)" "d \<in> fd ` set xs"
  shows "filter (\<lambda>e. fd e = d) (map (\<lambda>e. if fd e = d then e\<lparr>events := ev, revents := 0\<rparr> else e) xs) =
         [\<lparr>fd = d, events = ev, revents = 0\<rparr>]"
  using assms by (induction xs) (auto simp: filter_empty_conv image_iff)

lemma filter_miss_map:
  "filter (\<lambda>e. fd e \<noteq> d) (map (\<lambda>e. if fd e = d then e\<lparr>events := ev, revents := 0\<rparr> else e) xs) =
   filter (\<lambda>e. fd e \<noteq> d) xs"
  by (induction xs) auto

lemma map_fd_map:
  "map fd (map (\<lambda>e. if fd e = d then e\<lparr>events := ev, revents := 0\<rparr> else e) xs) = map fd xs"
  by (induction xs) auto

lemma add_event_update_step:
  assumes wf: "pollfds_wf p" and dist: "distinct (map fd (watched p))"
    and mem: "d \<in> fd ` set (watched p)" and room: "polled p \<noteq> length_fds p"
  shows "\<exists>p'. add_event p d ev = Inr (p', 0) \<and> polled p' = polled p \<and>
            length_fds p' = length_fds p \<and> pollfds_wf p' \<and>
            watched p' = map (\<lambda>e. if fd e = d then e\<lparr>events := ev, revents := 0\<rparr> else e) (watched p)"
proof -
  define n where "n = unat (polled p)"
  define i where "i = length (takeWhile (\<lambda>e. fd e \<noteq> d) (watched p))"
  define p' where "p' = p\<lparr>fds := (fds p)[i := (fds p ! i)\<lparr>events := ev, revents := 0\<rparr>]\<rparr>"
  have lw: "length (watched p) = n" using wf by (simp add: length_watched n_def)
  from takeWhile_found [OF mem] lw have i_lt: "i < n" and hit: "fd (watched p ! i) = d"
    by (simp_all add: i_def)
  from mem wf have d0: "\<not> d < 0"
    by (auto simp: pollfds_wf_def list_all_iff)
  have scan: "scan_fd (fds p) d 0 (unat (polled p)) = i"
    using scan_fd_watched [OF wf] by (simp add: i_def)
  have res: "add_event p d ev = Inr (p', 0)"
    using d0 room scan i_lt by (simp add: add_event_def Let_def p'_def n_def)
  have nth: "watched p ! i = fds p ! i" using i_lt by (simp add: watched_def n_def)
  have "watched p' = (watched p)[i := (watched p ! i)\<lparr>events := ev, revents := 0\<rparr>]"
    using i_lt by (simp add: p'_def watched_def take_update_swap n_def)
  also have "\<dots> = map (\<lambda>e. if fd e = d then e\<lparr>events := ev, revents := 0\<rparr> else e) (watched p)"
    using update_as_map [OF dist _ hit] i_lt lw by simp
  finally have w': "watched p' =
      map (\<lambda>e. if fd e = d then e\<lparr>events := ev, revents := 0\<rparr> else e) (watched p)" .
  have "pollfds_wf p'"
    using wf w' by (auto simp: pollfds_wf_def p'_def list_all_iff)
  with res w' show ?thesis by (auto simp: p'_def)
qed

text \<open>
  What \<open>add_event\<close> does for a descriptor \<open>d\<close> that is watched, in a well-formed
  registry with distinct watched descriptors. With a free slot left, it succeeds,
  the entry for \<open>d\<close> gets the new event mask and a cleared observed mask, the other
  entries, the order of the descriptors and the watched count are unchanged, and a
  second call with another mask leaves one entry for \<open>d\<close> with the later mask.
  With no free slot left, it returns \<open>-1\<close> and the registry as it was, for any
  descriptor: \<open>polled == length\<close> is tested before the scan.
\<close>

lemma add_event_update_twice:
  assumes "pollfds_wf p" and "distinct (map fd (watched p))"
    and "d \<in> fd ` set (watched p)" and "polled p \<noteq> length_fds p"
  shows "\<exists>p' p''.
      add_event p d ev = Inr (p', 0) \<and> polled p' = polled p \<and>
      map fd (watched p') = map fd (watched p) \<and>
      filter (\<lambda>e. fd e = d) (watched p') = [\<lparr>fd = d, events = ev, revents = 0\<rparr>] \<and>
      filter (\<lambda>e. fd e \<noteq> d) (watched p') = filter (\<lambda>e. fd e \<noteq> d) (watched p) \<and>
      add_event p' d ev' = Inr (p'', 0) \<and> polled p'' = polled p \<and>
      map fd (watched p'') = map fd (watched p) \<and>
      filter (\<lambda>e. fd e = d) (watched p'') = [\<lparr>fd = d, events = ev', revents = 0\<rparr>] \<and>
      filter (\<lambda>e. fd e \<noteq> d) (watched p'') = filter (\<lambda>e. fd e \<noteq> d) (watched p)"
proof -
  from add_event_update_step [OF assms, of ev]
  obtain p' where 1: "add_event p d ev = Inr (p', 0)" "polled p' = polled p"
    "length_fds p' = length_fds p" "pollfds_wf p'"
    "watched p' = map (\<lambda>e. if fd e = d then e\<lparr>events := ev, revents := 0\<rparr> else e) (watched p)"
    by blast
  have fd1: "map fd (watched p') = map fd (watched p)" using 1(5) by (simp only: map_fd_map)
  have dist': "distinct (map fd (watched p'))" using assms(2) fd1 by simp
  have mem': "d \<in> fd ` set (watched p')" using assms(3) fd1 by (metis list.set_map)
  have room': "polled p' \<noteq> length_fds p'" using assms(4) 1 by simp
  from add_event_update_step [OF 1(4) dist' mem' room', of ev']
  obtain p'' where 2: "add_event p' d ev' = Inr (p'', 0)" "polled p'' = polled p'"
    "watched p'' = map (\<lambda>e. if fd e = d then e\<lparr>events := ev', revents := 0\<rparr> else e) (watched p')"
    by blast
  have fd2: "map fd (watched p'') = map fd (watched p)" using 2(3) fd1 by (simp only: map_fd_map)
  have h1: "filter (\<lambda>e. fd e = d) (watched p') = [\<lparr>fd = d, events = ev, revents = 0\<rparr>]"
    using 1(5) filter_hit_map [OF assms(2,3)] by simp
  have m1: "filter (\<lambda>e. fd e \<noteq> d) (watched p') = filter (\<lambda>e. fd e \<noteq> d) (watched p)"
    using 1(5) by (simp add: filter_miss_map)
  have h2: "filter (\<lambda>e. fd e = d) (watched p'') = [\<lparr>fd = d, events = ev', revents = 0\<rparr>]"
    using 2(3) filter_hit_map [OF dist' mem'] by simp
  have m2: "filter (\<lambda>e. fd e \<noteq> d) (watched p'') = filter (\<lambda>e. fd e \<noteq> d) (watched p)"
    using 2(3) m1 by (simp add: filter_miss_map)
  from 1 2 fd1 fd2 h1 m1 h2 m2 show ?thesis by auto
qed

lemma add_event_full:
  "0 \<le> d \<Longrightarrow> polled p = length_fds p \<Longrightarrow> add_event p d ev = Inr (p, -1)"
  by (simp add: add_event_def)

section \<open>Claims on the registry\<close>

text \<open>
  C9. For every well-formed registry: when \<open>d\<close> is watched, \<open>remove_event\<close> leaves one
  watched entry fewer; the watched entries, which are the first \<open>polled\<close> slots, are
  the former ones without the first entry for \<open>d\<close>, in their former order, the
  registry stays well formed, the slot behind them is marked \<open>-1\<close> and the slots
  that were not watched are untouched. When \<open>d\<close> is a descriptor that is not watched,
  the registry is returned as it was.
\<close>

theorem remove_event_compacts:
  assumes "pollfds_wf p"
  shows "(d \<in> fd ` set (watched p) \<longrightarrow>
           (\<exists>p'. remove_event p d = Inr p' \<and>
                 Suc (unat (polled p')) = unat (polled p) \<and>
                 Suc (length (watched p')) = length (watched p) \<and>
                 watched p' = takeWhile (\<lambda>e. fd e \<noteq> d) (watched p) @
                              tl (dropWhile (\<lambda>e. fd e \<noteq> d) (watched p)) \<and>
                 pollfds_wf p' \<and> fd (fds p' ! unat (polled p')) = -1 \<and>
                 length_fds p' = length_fds p \<and>
                 drop (unat (polled p)) (fds p') = drop (unat (polled p)) (fds p))) \<and>
         (0 \<le> d \<and> d \<notin> fd ` set (watched p) \<longrightarrow> remove_event p d = Inr p)"
proof (intro conjI impI)
  assume mem: "d \<in> fd ` set (watched p)"
  from remove_event_found [OF assms mem]
  obtain p' where r: "remove_event p d = Inr p'" "Suc (unat (polled p')) = unat (polled p)"
    "watched p' = takeWhile (\<lambda>e. fd e \<noteq> d) (watched p) @
                  tl (dropWhile (\<lambda>e. fd e \<noteq> d) (watched p))"
    "pollfds_wf p'" "fd (fds p' ! unat (polled p')) = -1" "length_fds p' = length_fds p"
    "drop (unat (polled p)) (fds p') = drop (unat (polled p)) (fds p)"
    by blast
  have "Suc (length (watched p')) = length (watched p)"
    using r(2,4) assms by (simp add: length_watched)
  with r show "\<exists>p'. remove_event p d = Inr p' \<and>
                 Suc (unat (polled p')) = unat (polled p) \<and>
                 Suc (length (watched p')) = length (watched p) \<and>
                 watched p' = takeWhile (\<lambda>e. fd e \<noteq> d) (watched p) @
                              tl (dropWhile (\<lambda>e. fd e \<noteq> d) (watched p)) \<and>
                 pollfds_wf p' \<and> fd (fds p' ! unat (polled p')) = -1 \<and>
                 length_fds p' = length_fds p \<and>
                 drop (unat (polled p)) (fds p') = drop (unat (polled p)) (fds p)"
    by blast
next
  assume "0 \<le> d \<and> d \<notin> fd ` set (watched p)"
  then show "remove_event p d = Inr p"
    using remove_event_missing [OF assms] by blast
qed

text \<open>
  The theorem at \<open>reg3\<close>: removing the middle descriptor 5 leaves 3 and 7 in the
  first two slots; removing the unwatched descriptor 9 changes nothing.
\<close>

theorem remove_event_compacts_witness:
  "pollfds_wf reg3 \<and> 5 \<in> fd ` set (watched reg3) \<and> (0::int) \<le> 9 \<and>
   9 \<notin> fd ` set (watched reg3) \<and>
   (\<exists>p'. remove_event reg3 5 = Inr p' \<and> unat (polled p') = 2 \<and>
      watched p' = [\<lparr>fd = 3, events = 3, revents = 0\<rparr>, \<lparr>fd = 7, events = 5, revents = 4\<rparr>]) \<and>
   remove_event reg3 9 = Inr reg3"
proof -
  have wf: "pollfds_wf reg3" by (simp add: reg3_def pollfds_wf_def watched_def)
  have mem: "5 \<in> fd ` set (watched reg3)" by (simp add: reg3_def watched_def)
  have nomem: "9 \<notin> fd ` set (watched reg3)" by (simp add: reg3_def watched_def)
  have w: "watched reg3 = [\<lparr>fd = 3, events = 3, revents = 0\<rparr>, \<lparr>fd = 5, events = 1, revents = 1\<rparr>,
                           \<lparr>fd = 7, events = 5, revents = 4\<rparr>]"
    and p: "unat (polled reg3) = 3"
    by (simp_all add: reg3_def watched_def)
  from remove_event_compacts [OF wf, of 5] mem w p
  have a: "\<exists>p'. remove_event reg3 5 = Inr p' \<and> unat (polled p') = 2 \<and>
      watched p' = [\<lparr>fd = 3, events = 3, revents = 0\<rparr>, \<lparr>fd = 7, events = 5, revents = 4\<rparr>]"
    by auto
  from remove_event_compacts [OF wf, of 9] nomem
  have b: "remove_event reg3 9 = Inr reg3" by simp
  from wf mem nomem a b show ?thesis by simp
qed

section \<open>Where the code departs from the claims\<close>

text \<open>
  C6. \<open>add_event\<close> does not update a watched descriptor when the registry is full:
  it tests \<open>polled == length\<close>, the guard for adding an entry, before it scans for
  the descriptor. \<open>reg_full\<close> is well formed and watches descriptor 3 with mask 1 in
  its only slot; \<open>add_event\<close> with mask 4 returns \<open>-1\<close> and leaves the registry as it
  was, the mask still 1. The same call on the same entry with one free slot behind
  it returns 0 and sets the mask.
\<close>

theorem add_event_full_registry_refuses_update:
  "pollfds_wf reg_full \<and> distinct (map fd (watched reg_full)) \<and>
   3 \<in> fd ` set (watched reg_full) \<and> polled reg_full = length_fds reg_full \<and>
   add_event reg_full 3 4 = Inr (reg_full, -1) \<and>
   map events (watched reg_full) = [1] \<and>
   add_event (reg_full\<lparr>fds := fds reg_full @ [\<lparr>fd = -1, events = 0, revents = 0\<rparr>],
                        length_fds := 2\<rparr>) 3 4 =
     Inr (reg_full\<lparr>fds := [\<lparr>fd = 3, events = 4, revents = 0\<rparr>,
                               \<lparr>fd = -1, events = 0, revents = 0\<rparr>],
                     length_fds := 2\<rparr>, 0)"
  by (simp add: reg_full_def pollfds_wf_def watched_def add_event_def scan_fd.simps)

text \<open>
  C3. \<open>iobuff_space\<close> does not return \<open>size - (head - tail)\<close> when \<open>head\<close> is
  numerically behind \<open>tail\<close>: \<open>buf_overflown\<close> is well formed and holds 3 of its 8
  bytes, so 5 are free, but the branch for \<open>head < tail\<close> returns \<open>tail - head\<close> cut
  to an \<open>int\<close>, which is \<open>-3\<close>. The \<open>int\<close> result also loses the value for an empty
  buffer of \<open>2 ^ 31\<close> bytes, whatever its storage \<open>m\<close> holds and wherever it lies.
\<close>

theorem iobuff_space_behind_tail:
  "iobuff_wf buf_overflown \<and> head buf_overflown < tail buf_overflown \<and>
   head buf_overflown - tail buf_overflown = 3 \<and>
   size_io buf_overflown - (head buf_overflown - tail buf_overflown) = 5 \<and>
   sint (iobuff_space buf_overflown) = -3 \<and>
   sint (iobuff_space \<lparr>buffer = m, size_io = 2147483648, head = 0, tail = 0,
                        own_block = ob\<rparr>) = -2147483648"
proof -
  have "is_pow2 (8 :: size_t)"
    unfolding is_pow2_def by (rule bexI [of _ 3]) simp_all
  then show ?thesis
    by (simp add: buf_overflown_def iobuff_wf_def iobuff_space_def word_le_nat_alt
        word_less_nat_alt)
qed

text \<open>
  C1. Appending \<open>ghij\<close> to \<open>buf_drained\<close> gives \<open>buf_wrapped\<close>, whose four pending
  bytes wrap past the end of the storage. \<open>iobuff_send\<close> tests \<open>tail > head\<close> on the
  unmasked counters (6 and 10), does not copy the bytes into a contiguous block and
  points \<open>send\<close> to offset 6 of the eight-byte storage for four bytes: it is handed
  \<open>gh\<close> and the two bytes that lie behind the storage in memory, not \<open>ij\<close>, and
  \<open>tail\<close> is advanced past them by the count \<open>send\<close> reports. The copy is only made
  once \<open>head\<close> itself has wrapped around \<open>2 ^ 64\<close>, as in \<open>buf_overflown\<close>.
\<close>

theorem iobuff_send_wrapped_reads_past_end:
  "iobuff_append buf_drained [103, 104, 105, 106] 4 False None = Inr (buf_wrapped, 4) \<and>
   iobuff_wf buf_wrapped \<and> pending buf_wrapped = [103, 104, 105, 106] \<and>
   iobuff_send buf_wrapped True 4 beyond =
     Inr (buf_wrapped\<lparr>tail := 10\<rparr>, 4, [103, 104, beyond 0, beyond 1]) \<and>
   iobuff_send buf_overflown True 3 beyond =
     Inr (buf_overflown\<lparr>tail := 1\<rparr>, 3, [103, 104, 105])"
proof -
  have p2: "is_pow2 (8 :: size_t)"
    unfolding is_pow2_def by (rule bexI [of _ 3]) simp_all
  have "iobuff_append buf_drained [103, 104, 105, 106] 4 False None = Inr (buf_wrapped, 4)"
    by (simp add: iobuff_append_def append_copy_def buf_drained_def buf_wrapped_def
        iobuff_full_def iobuff_space_def memcpy_def min_sz_def Let_def)
  moreover have "iobuff_wf buf_wrapped"
    using p2 by (simp add: iobuff_wf_def buf_wrapped_def)
  moreover have "pending buf_wrapped = [103, 104, 105, 106]"
    by (simp add: pending_def buf_wrapped_def upt_rec)
  moreover have "iobuff_send buf_wrapped True 4 beyond =
      Inr (buf_wrapped\<lparr>tail := 10\<rparr>, 4, [103, 104, beyond 0, beyond 1])"
    by (simp add: iobuff_send_def buf_wrapped_def send_bytes_def send_finish_def Let_def
        word_sless_alt upt_rec)
  moreover have "iobuff_send buf_overflown True 3 beyond =
      Inr (buf_overflown\<lparr>tail := 1\<rparr>, 3, [103, 104, 105])"
    by (simp add: iobuff_send_def buf_overflown_def send_bytes_def memcpy_def send_finish_def
        Let_def word_less_nat_alt word_sless_alt upt_rec)
  ultimately show ?thesis by simp
qed

text \<open>
  C2. \<open>buf_wrapped\<close> holds the pending bytes \<open>ghij\<close>, wrapped. Appending the five
  bytes \<open>klmno\<close> with growth allowed calls \<open>realloc\<close> on the storage pointer. On
  \<open>buf_wrapped\<close> as \<open>iobuff_alloc\<close> laid it out, that pointer is the address behind
  the header and the call ends the program. On the same buffer with its storage in a
  block of its own, and \<open>realloc\<close> succeeding, the storage is resized to 16 bytes in
  place and only then the counters are masked with the new size: the pending range
  is now the offsets 6 to 14, where the bytes \<open>ij\<close> are not, and \<open>iobuff_send\<close>
  hands \<open>send\<close> the two bytes after \<open>gh\<close> that \<open>realloc\<close> left indeterminate
  (\<open>junk 8\<close> and \<open>junk 9\<close>) in their place.
\<close>

theorem iobuff_append_growth_loses_wrapped:
  "pending buf_wrapped = [103, 104, 105, 106] \<and>
   iobuff_append buf_wrapped [107, 108, 109, 110, 111] 5 True (Some junk) = Inl Invalid_free \<and>
   pending (buf_wrapped\<lparr>own_block := True\<rparr>) = [103, 104, 105, 106] \<and>
   iobuff_append (buf_wrapped\<lparr>own_block := True\<rparr>) [107, 108, 109, 110, 111] 5 True
       (Some junk) =
     Inr (\<lparr>buffer = [105, 106, 99, 100, 101, 102, 103, 104, junk 8, junk 9,
                      107, 108, 109, 110, 111, junk 15],
           size_io = 16, head = 15, tail = 6, own_block = True\<rparr>, 5) \<and>
   iobuff_send \<lparr>buffer = [105, 106, 99, 100, 101, 102, 103, 104, junk 8, junk 9,
                          107, 108, 109, 110, 111, junk 15],
               size_io = 16, head = 15, tail = 6, own_block = True\<rparr> True 9 beyond =
     Inr (\<lparr>buffer = [105, 106, 99, 100, 101, 102, 103, 104, junk 8, junk 9,
                      107, 108, 109, 110, 111, junk 15],
           size_io = 16, head = 15, tail = 15, own_block = True\<rparr>, 9,
          [103, 104, junk 8, junk 9, 107, 108, 109, 110, 111])"
proof -
  have "pending buf_wrapped = [103, 104, 105, 106]"
    by (simp add: pending_def buf_wrapped_def upt_rec)
  moreover have "iobuff_append buf_wrapped [107, 108, 109, 110, 111] 5 True (Some junk) =
      Inl Invalid_free"
    by (simp add: iobuff_append_def buf_wrapped_def iobuff_full_def iobuff_space_def Let_def)
  moreover have "pending (buf_wrapped\<lparr>own_block := True\<rparr>) = [103, 104, 105, 106]"
    by (simp add: pending_def buf_wrapped_def upt_rec)
  moreover have "iobuff_append (buf_wrapped\<lparr>own_block := True\<rparr>) [107, 108, 109, 110, 111] 5
       True (Some junk) =
     Inr (\<lparr>buffer = [105, 106, 99, 100, 101, 102, 103, 104, junk 8, junk 9,
                      107, 108, 109, 110, 111, junk 15],
           size_io = 16, head = 15, tail = 6, own_block = True\<rparr>, 5)"
  proof -
    have upt8: "[8 ..< 16 :: nat] = [8, 9, 10, 11, 12, 13, 14, 15]"
      by (simp add: upt_rec)
    have "length [105, 106, 99, 100, 101, 102, 103, 104 :: byte] = 8" by simp
    then have grown: "realloc_block [105, 106, 99, 100, 101, 102, 103, 104] 16 junk =
        [105, 106, 99, 100, 101, 102, 103, 104, junk 8, junk 9, junk 10, junk 11, junk 12,
         junk 13, junk 14, junk 15]"
      unfolding realloc_block_def by (simp only: upt8) simp
    have up: "size_roundup 13 = 16"
      by (simp add: size_roundup_def)
    show ?thesis
      by (simp add: iobuff_append_def append_copy_def buf_wrapped_def iobuff_full_def
          iobuff_space_def memcpy_def min_sz_def Let_def grown up)
  qed
  moreover have "iobuff_send \<lparr>buffer = [105, 106, 99, 100, 101, 102, 103, 104, junk 8, junk 9,
                          107, 108, 109, 110, 111, junk 15],
               size_io = 16, head = 15, tail = 6, own_block = True\<rparr> True 9 beyond =
     Inr (\<lparr>buffer = [105, 106, 99, 100, 101, 102, 103, 104, junk 8, junk 9,
                      107, 108, 109, 110, 111, junk 15],
           size_io = 16, head = 15, tail = 15, own_block = True\<rparr>, 9,
          [103, 104, junk 8, junk 9, 107, 108, 109, 110, 111])"
    by (simp add: iobuff_send_def send_bytes_def send_finish_def Let_def word_sless_alt
        upt_rec)
  ultimately show ?thesis by simp
qed

text \<open>
  C4. In \<open>srv0\<close>, an accept whose \<open>htable_insert\<close> fails returns \<open>NULL\<close>, closes the
  socket and frees the context, but descriptor 5 stays in the registry, which now
  watches two descriptors: no label of \<open>as_accept\<close> calls \<open>remove_event\<close> or
  \<open>htable_remove\<close>. An accept whose input or output \<open>iobuff_alloc\<close> fails jumps to
  the label that passes the \<open>NULL\<close> it just stored to \<open>iobuff_free\<close>, whose
  \<open>assert\<close> ends the program.
\<close>

theorem as_accept_failure_leaves_registry_entry:
  "(case as_accept srv0 7 (env_ok\<lparr>insert_res := -1\<rparr>) of
      Inl e \<Rightarrow> False
    | Inr (s, r) \<Rightarrow>
        r = None \<and> map fd (watched (registry s)) = [3, 5] \<and> polled (registry s) = 2 \<and>
        contexts s 5 = None \<and> clients s 0 = None \<and> open_fds s = [3]) \<and>
   as_accept srv0 7 (env_ok\<lparr>input_alloc_ok := False\<rparr>) = Inl Assert_failed \<and>
   as_accept srv0 7 (env_ok\<lparr>output_alloc_ok := False\<rparr>) = Inl Assert_failed"
  by (simp add: as_accept_def accept_buffers_def error_in_buffer_def error_out_buffer_def
      error_disconnect_def error_free_def client_close_def iobuff_free_def iobuff_alloc_def
      add_event_def srv0_def env_ok_def Let_def POLLIN_def POLLOUT_def POLLHUP_def
      BUFFER_SIZE_def watched_def size_roundup_def scan_fd.simps htable_insert_def)

text \<open>
  C5. In \<open>srv0\<close>, a successful accept puts the context at address 0 and its input and
  output buffers at the addresses 1 and 2. \<open>as_disconnect\<close> then removes descriptor
  5 from the registry (one watched entry fewer) and from the table, closes the socket
  and frees the context, but both buffer blocks stay allocated: it never calls
  \<open>iobuff_free\<close>.
\<close>

theorem as_disconnect_leaves_buffers:
  "(case as_accept srv0 7 env_ok of
      Inl e \<Rightarrow> False
    | Inr (s, r) \<Rightarrow>
        r = Some 0 \<and> map fd (watched (registry s)) = [3, 5] \<and> contexts s 5 = Some 0 \<and>
        map_option input_buf (clients s 0) = Some (Allocated 1) \<and>
        map_option output_buf (clients s 0) = Some (Allocated 2) \<and>
        buffers s 1 \<noteq> None \<and> buffers s 2 \<noteq> None \<and>
        (case as_disconnect s 0 True of
           Inl e \<Rightarrow> False
         | Inr t \<Rightarrow>
             map fd (watched (registry t)) = [3] \<and> contexts t 5 = None \<and>
             clients t 0 = None \<and> open_fds t = [3] \<and>
             buffers t 1 = buffers s 1 \<and> buffers t 2 = buffers s 2 \<and>
             buffers t 1 \<noteq> None \<and> buffers t 2 \<noteq> None))"
  by (simp add: as_accept_def accept_buffers_def client_close_def iobuff_alloc_def
      add_event_def srv0_def env_ok_def Let_def POLLIN_def POLLOUT_def POLLHUP_def
      BUFFER_SIZE_def watched_def size_roundup_def scan_fd.simps as_disconnect_def
      remove_event_def pack.simps htable_insert_def htable_remove_def)

section \<open>The dispatch loop\<close>

lemma poll_loop_trace:
  "poll_loop cb i s tr = Inr (s', tr') \<Longrightarrow>
   \<exists>cls. tr' = tr @ cls \<and>
     list_all (\<lambda>c. \<exists>j a ev. c = Client_call j a ev \<and> i \<le> j \<and> ev \<noteq> 0) cls \<and>
     sorted_wrt (<) (map call_slot cls)"
proof (induction cb i s tr rule: poll_loop.induct)
  case (1 cb i s tr)
  show ?case
  proof (cases "i < unat (polled (registry s))")
    case False
    with "1.prems" have "tr' = tr" by (subst (asm) poll_loop.simps) simp
    then show ?thesis by simp
  next
    case True
    with "1.prems" have inb: "\<not> length (fds (registry s)) \<le> i"
      by (subst (asm) poll_loop.simps) (auto split: if_splits)
    define pf where "pf = fds (registry s) ! i"
    show ?thesis
    proof (cases "revents pf = 0")
      case True
      with \<open>i < unat (polled (registry s))\<close> inb "1.prems"
      have "poll_loop cb (Suc i) s tr = Inr (s', tr')"
        by (subst (asm) poll_loop.simps) (simp add: pf_def Let_def)
      from "1.IH"(1) [OF \<open>i < unat (polled (registry s))\<close> inb pf_def True this]
      obtain cls where c: "tr' = tr @ cls"
        "list_all (\<lambda>c. \<exists>j a ev. c = Client_call j a ev \<and> Suc i \<le> j \<and> ev \<noteq> 0) cls"
        "sorted_wrt (<) (map call_slot cls)" by blast
      from c(2) have "list_all (\<lambda>c. \<exists>j a ev. c = Client_call j a ev \<and> i \<le> j \<and> ev \<noteq> 0) cls"
        by (auto simp: list_all_iff intro: Suc_leD)
      with c show ?thesis by blast
    next
      case False
      with \<open>i < unat (polled (registry s))\<close> inb "1.prems"
      obtain a c s1 where step: "htable_get (contexts s) (fd pf) = Some a" "clients s a = Some c"
        "cb (event_handler c) (Client a) (revents pf) s = Inr s1"
        "poll_loop cb (Suc i) s1 (tr @ [Client_call i a (revents pf)]) = Inr (s', tr')"
        by (subst (asm) poll_loop.simps)
          (auto simp: pf_def Let_def split: option.splits sum.splits)
      from "1.IH"(2) [OF \<open>i < unat (polled (registry s))\<close> inb pf_def False step]
      obtain cls where c: "tr' = (tr @ [Client_call i a (revents pf)]) @ cls"
        "list_all (\<lambda>c. \<exists>j a ev. c = Client_call j a ev \<and> Suc i \<le> j \<and> ev \<noteq> 0) cls"
        "sorted_wrt (<) (map call_slot cls)" by blast
      have later: "\<forall>x \<in> set cls. i < call_slot x"
        using c(2) by (auto simp: list_all_iff)
      have "tr' = tr @ (Client_call i a (revents pf) # cls)" using c(1) by simp
      moreover have "list_all (\<lambda>c. \<exists>j a ev. c = Client_call j a ev \<and> i \<le> j \<and> ev \<noteq> 0)
                       (Client_call i a (revents pf) # cls)"
        using c(2) False by (auto simp: list_all_iff intro: Suc_leD)
      moreover have "sorted_wrt (<) (map call_slot (Client_call i a (revents pf) # cls))"
        using c(3) later by simp
      ultimately show ?thesis by blast
    qed
  qed
qed

lemma slot_call_cong:
  "registry s1 = registry s \<Longrightarrow> contexts s1 = contexts s \<Longrightarrow> slot_call s1 = slot_call s"
  by (rule ext) (simp add: slot_call_def)

lemma poll_loop_static:
  "\<forall>h t ev u u'. cb h t ev u = Inr u' \<longrightarrow>
      registry u' = registry u \<and> contexts u' = contexts u \<Longrightarrow>
   poll_loop cb i s tr = Inr (s', tr') \<Longrightarrow>
   tr' = tr @ map (slot_call s)
                (filter (\<lambda>j. revents (fds (registry s) ! j) \<noteq> 0)
                   [i ..< unat (polled (registry s))]) \<and>
   registry s' = registry s \<and> contexts s' = contexts s"
proof (induction cb i s tr rule: poll_loop.induct)
  case (1 cb i s tr)
  show ?case
  proof (cases "i < unat (polled (registry s))")
    case False
    with "1.prems"(2) have "tr' = tr \<and> s' = s" by (subst (asm) poll_loop.simps) simp
    with False show ?thesis by simp
  next
    case True
    with "1.prems"(2) have inb: "\<not> length (fds (registry s)) \<le> i"
      by (subst (asm) poll_loop.simps) (auto split: if_splits)
    define pf where "pf = fds (registry s) ! i"
    have upt: "[i ..< unat (polled (registry s))] = i # [Suc i ..< unat (polled (registry s))]"
      using True by (simp add: upt_conv_Cons)
    show ?thesis
    proof (cases "revents pf = 0")
      case z: True
      with True inb "1.prems"(2)
      have "poll_loop cb (Suc i) s tr = Inr (s', tr')"
        by (subst (asm) poll_loop.simps) (simp add: pf_def Let_def)
      from "1.IH"(1) [OF True inb pf_def z "1.prems"(1) this] z
      show ?thesis by (simp add: upt pf_def)
    next
      case nz: False
      with True inb "1.prems"(2)
      obtain a c s1 where step: "htable_get (contexts s) (fd pf) = Some a" "clients s a = Some c"
        "cb (event_handler c) (Client a) (revents pf) s = Inr s1"
        "poll_loop cb (Suc i) s1 (tr @ [Client_call i a (revents pf)]) = Inr (s', tr')"
        by (subst (asm) poll_loop.simps)
          (auto simp: pf_def Let_def split: option.splits sum.splits)
      from "1.prems"(1) step(3)
      have same: "registry s1 = registry s" "contexts s1 = contexts s" by blast+
      have here: "slot_call s i = Client_call i a (revents pf)"
        using step(1) by (simp add: slot_call_def pf_def)
      from "1.IH"(2) [OF True inb pf_def nz step(1,2,3) "1.prems"(1) step(4)]
      show ?thesis
        using nz same here by (simp add: upt pf_def slot_call_cong [OF same])
    qed
  qed
qed

lemma client_calls_skip:
  assumes "i < unat (polled (registry s))" and "i < length (fds (registry s))"
    and "revents (fds (registry s) ! i) = 0" and "client_calls cb (Suc i) s cls s'"
  shows "client_calls cb i s cls s'"
proof (cases cls)
  case Nil
  have "[i ..< unat (polled (registry s))] = i # [Suc i ..< unat (polled (registry s))]"
    using assms(1) by (simp add: upt_conv_Cons)
  with assms Nil show ?thesis by simp
next
  case (Cons x cs)
  show ?thesis
  proof (cases x)
    case (Server_call ev)
    with assms(4) Cons show ?thesis by simp
  next
    case (Client_call j a ev)
    with assms(4) Cons have "Suc i \<le> j" by simp
    then have "[i ..< j] = i # [Suc i ..< j]" by (simp add: upt_conv_Cons)
    with assms Cons Client_call show ?thesis by simp
  qed
qed

lemma poll_loop_calls:
  "poll_loop cb i s tr = Inr (s', tr') \<Longrightarrow> \<exists>cls. tr' = tr @ cls \<and> client_calls cb i s cls s'"
proof (induction cb i s tr rule: poll_loop.induct)
  case (1 cb i s tr)
  show ?case
  proof (cases "i < unat (polled (registry s))")
    case False
    with "1.prems" have "tr' = tr \<and> s' = s" by (subst (asm) poll_loop.simps) simp
    with False have "tr' = tr @ [] \<and> client_calls cb i s [] s'" by simp
    then show ?thesis by blast
  next
    case True
    with "1.prems" have inb: "\<not> length (fds (registry s)) \<le> i"
      by (subst (asm) poll_loop.simps) (auto split: if_splits)
    define pf where "pf = fds (registry s) ! i"
    show ?thesis
    proof (cases "revents pf = 0")
      case z: True
      with True inb "1.prems"
      have "poll_loop cb (Suc i) s tr = Inr (s', tr')"
        by (subst (asm) poll_loop.simps) (simp add: pf_def Let_def)
      from "1.IH"(1) [OF True inb pf_def z this]
      obtain cls where c: "tr' = tr @ cls" "client_calls cb (Suc i) s cls s'" by blast
      from inb have "i < length (fds (registry s))" by simp
      from client_calls_skip [OF True this _ c(2)] z have "client_calls cb i s cls s'"
        by (simp add: pf_def)
      with c(1) show ?thesis by blast
    next
      case nz: False
      with True inb "1.prems"
      obtain a c s1 where step: "htable_get (contexts s) (fd pf) = Some a" "clients s a = Some c"
        "cb (event_handler c) (Client a) (revents pf) s = Inr s1"
        "poll_loop cb (Suc i) s1 (tr @ [Client_call i a (revents pf)]) = Inr (s', tr')"
        by (subst (asm) poll_loop.simps)
          (auto simp: pf_def Let_def split: option.splits sum.splits)
      from "1.IH"(2) [OF True inb pf_def nz step]
      obtain cls where c: "tr' = (tr @ [Client_call i a (revents pf)]) @ cls"
        "client_calls cb (Suc i) s1 cls s'" by blast
      have "client_calls cb i s (Client_call i a (revents pf) # cls) s'"
        using True inb nz step(1,2,3) c(2) by (simp add: pf_def)
      moreover have "tr' = tr @ (Client_call i a (revents pf) # cls)" using c(1) by simp
      ultimately show ?thesis by blast
    qed
  qed
qed

text \<open>
  C10. In every iteration of \<open>as_poll\<close> that returns 0, the calls made are: first the
  server callback, once, if slot 0 shows an observed event after \<open>poll\<close>, and not at
  all otherwise; then client callbacks only, each for a slot from 1 on, in strictly
  increasing slot order (so at most one per slot), each with the non-zero observed
  mask read from its slot. The state returned is the one these calls produce and
  no other: the server callback, when it is called, runs on the state \<open>poll\<close> left
  and returns \<open>s2\<close>; every client callback runs on the state its predecessor
  returned, for the first slot behind the predecessor's whose observed mask is not
  zero in that state; behind the last call no watched slot shows an observed mask,
  and the state the last callback returned is the result. When the callbacks leave
  the registry and the table as they are, the client calls are exactly those of the
  slots from 1 up to \<open>polled\<close> whose observed mask is not zero, in slot order: a
  slot with observed mask zero gets no call.
\<close>

theorem as_poll_dispatch_order:
  assumes "as_poll cb s poll_result rv = Inr (0, s', tr)"
  shows "\<exists>s2 cls.
      tr = (let ev = revents (hd (fds (poll_write (registry s) rv)))
            in if ev \<noteq> 0 then [Server_call ev] else []) @ cls \<and>
      (let s1 = s\<lparr>registry := poll_write (registry s) rv\<rparr>;
           ev = revents (hd (fds (registry s1)))
       in if ev \<noteq> 0 then cb (srv_handler s1) Server ev s1 = Inr s2 else s2 = s1) \<and>
      client_calls cb 1 s2 cls s' \<and>
      list_all (\<lambda>c. \<exists>j a ev. c = Client_call j a ev \<and> 1 \<le> j \<and> ev \<noteq> 0) cls \<and>
      sorted_wrt (<) (map call_slot cls) \<and>
      (keeps_dispatch cb \<longrightarrow>
       cls = map (slot_call (s\<lparr>registry := poll_write (registry s) rv\<rparr>))
               (filter (\<lambda>j. revents (fds (poll_write (registry s) rv) ! j) \<noteq> 0)
                  [1 ..< unat (polled (registry s))]))"
proof -
  define s1 where "s1 = s\<lparr>registry := poll_write (registry s) rv\<rparr>"
  define ev0 where "ev0 = revents (hd (fds (poll_write (registry s) rv)))"
  define pre where "pre = (if ev0 \<noteq> 0 then [Server_call ev0] else [])"
  have pol: "polled (registry s1) = polled (registry s)"
    by (simp add: s1_def poll_write_def)
  from assms obtain s2 where
    srv: "ev0 \<noteq> 0 \<longrightarrow> cb (srv_handler s1) Server ev0 s1 = Inr s2"
         "ev0 = 0 \<longrightarrow> s2 = s1"
    and loop: "poll_loop cb 1 s2 pre = Inr (s', tr)"
    by (auto simp: as_poll_def Let_def s1_def ev0_def pre_def
        split: if_splits list.splits sum.splits prod.splits)
  from poll_loop_trace [OF loop]
  obtain cls where c: "tr = pre @ cls"
    "list_all (\<lambda>c. \<exists>j a ev. c = Client_call j a ev \<and> 1 \<le> j \<and> ev \<noteq> 0) cls"
    "sorted_wrt (<) (map call_slot cls)" by blast
  from poll_loop_calls [OF loop] c(1) have calls: "client_calls cb 1 s2 cls s'" by auto
  have first: "if ev0 \<noteq> 0 then cb (srv_handler s1) Server ev0 s1 = Inr s2 else s2 = s1"
    using srv by simp
  have static: "cls = map (slot_call s1)
               (filter (\<lambda>j. revents (fds (poll_write (registry s) rv) ! j) \<noteq> 0)
                  [1 ..< unat (polled (registry s))])"
    if "keeps_dispatch cb"
  proof -
    from that have frame: "\<forall>h t ev u u'. cb h t ev u = Inr u' \<longrightarrow>
            registry u' = registry u \<and> contexts u' = contexts u"
      by (simp add: keeps_dispatch_def)
    have same: "registry s2 = registry s1" "contexts s2 = contexts s1"
      using srv frame by (cases "ev0 = 0"; simp)+
    from poll_loop_static [OF frame loop]
    have "tr = pre @ map (slot_call s2)
                (filter (\<lambda>j. revents (fds (registry s2) ! j) \<noteq> 0)
                   [1 ..< unat (polled (registry s2))])"
      by blast
    with c(1) same pol show ?thesis
      by (simp add: slot_call_cong [OF same] s1_def)
  qed
  show ?thesis
  proof (intro exI [of _ s2] exI [of _ cls] conjI)
    show "tr = (let ev = revents (hd (fds (poll_write (registry s) rv)))
                in if ev \<noteq> 0 then [Server_call ev] else []) @ cls"
      using c(1) by (simp add: pre_def ev0_def Let_def)
    show "let s1 = s\<lparr>registry := poll_write (registry s) rv\<rparr>;
              ev = revents (hd (fds (registry s1)))
          in if ev \<noteq> 0 then cb (srv_handler s1) Server ev s1 = Inr s2 else s2 = s1"
      using first unfolding s1_def ev0_def by (simp add: Let_def split: if_splits)
    show "client_calls cb 1 s2 cls s'" by (rule calls)
    show "list_all (\<lambda>c. \<exists>j a ev. c = Client_call j a ev \<and> 1 \<le> j \<and> ev \<noteq> 0) cls"
      by (rule c(2))
    show "sorted_wrt (<) (map call_slot cls)" by (rule c(3))
    show "keeps_dispatch cb \<longrightarrow>
       cls = map (slot_call (s\<lparr>registry := poll_write (registry s) rv\<rparr>))
               (filter (\<lambda>j. revents (fds (poll_write (registry s) rv) ! j) \<noteq> 0)
                  [1 ..< unat (polled (registry s))])"
      using static by (simp add: s1_def)
  qed
qed

text \<open>
  The theorem at \<open>srv2\<close>, where \<open>poll\<close> reports 3 ready descriptors and observes the
  event 1 on the listener, nothing on slot 1 and the event 4 on slot 2: the server
  callback is called, then the callback of the client in slot 2 only, which sets
  the status of that client (at address 11) and leaves the client of slot 1 (at
  address 10) as it was.
\<close>

theorem as_poll_dispatch_order_witness:
  "keeps_dispatch mark_status \<and>
   (\<exists>s'. as_poll mark_status srv2 3 (\<lambda>i. if i = 0 then 1 else if i = 1 then 0 else 4) =
      Inr (0, s', [Server_call 1, Client_call 2 11 4]) \<and>
      client_calls mark_status 1
        (srv2\<lparr>registry :=
           poll_write (registry srv2) (\<lambda>i. if i = 0 then 1 else if i = 1 then 0 else 4)\<rparr>)
        [Client_call 2 11 4] s' \<and>
      map_option status (clients s' 10) = Some 0 \<and>
      map_option status (clients s' 11) = Some 4) \<and>
   map (slot_call (srv2\<lparr>registry :=
          poll_write (registry srv2) (\<lambda>i. if i = 0 then 1 else if i = 1 then 0 else 4)\<rparr>))
     (filter (\<lambda>j. revents (fds (poll_write (registry srv2)
                 (\<lambda>i. if i = 0 then 1 else if i = 1 then 0 else 4)) ! j) \<noteq> 0)
        [1 ..< unat (polled (registry srv2))]) = [Client_call 2 11 4]"
proof -
  define rv :: "nat \<Rightarrow> short" where "rv = (\<lambda>i. if i = 0 then 1 else if i = 1 then 0 else 4)"
  define s1 where "s1 = srv2\<lparr>registry := poll_write (registry srv2) rv\<rparr>"
  have keeps: "keeps_dispatch mark_status"
    by (auto simp: keeps_dispatch_def mark_status_def split: target.splits option.splits)
  have "\<exists>s'. as_poll mark_status srv2 3 rv = Inr (0, s', [Server_call 1, Client_call 2 11 4]) \<and>
      map_option status (clients s' 10) = Some 0 \<and> map_option status (clients s' 11) = Some 4"
    by (simp add: as_poll_def poll_write_def srv2_def reg3_def mark_status_def rv_def Let_def
        upt_rec poll_loop.simps htable_get_def)
  then obtain s' where r: "as_poll mark_status srv2 3 rv =
      Inr (0, s', [Server_call 1, Client_call 2 11 4])"
    and st: "map_option status (clients s' 10) = Some 0"
      "map_option status (clients s' 11) = Some 4" by blast
  have ev0: "revents (hd (fds (poll_write (registry srv2) rv))) = 1"
    by (simp add: poll_write_def srv2_def reg3_def rv_def upt_rec)
  have srv: "mark_status h Server ev u = Inr u" for h ev u
    by (simp add: mark_status_def)
  from as_poll_dispatch_order [OF r] obtain s2 cls where
    t: "[Server_call 1, Client_call 2 11 4] =
          (let ev = revents (hd (fds (poll_write (registry srv2) rv)))
           in if ev \<noteq> 0 then [Server_call ev] else []) @ cls"
    and f: "let s1 = srv2\<lparr>registry := poll_write (registry srv2) rv\<rparr>;
                ev = revents (hd (fds (registry s1)))
            in if ev \<noteq> 0 then mark_status (srv_handler s1) Server ev s1 = Inr s2 else s2 = s1"
    and cc: "client_calls mark_status 1 s2 cls s'"
    and ex: "keeps_dispatch mark_status \<longrightarrow>
       cls = map (slot_call (srv2\<lparr>registry := poll_write (registry srv2) rv\<rparr>))
               (filter (\<lambda>j. revents (fds (poll_write (registry srv2) rv) ! j) \<noteq> 0)
                  [1 ..< unat (polled (registry srv2))])"
    by blast
  from t have cls: "cls = [Client_call 2 11 4]" by (simp add: ev0 Let_def)
  from f have "s2 = s1" unfolding Let_def s1_def [symmetric] by (simp add: srv split: if_splits)
  with cc cls have a: "client_calls mark_status 1 s1 [Client_call 2 11 4] s'" by simp
  from ex keeps cls have b: "map (slot_call s1)
     (filter (\<lambda>j. revents (fds (poll_write (registry srv2) rv) ! j) \<noteq> 0)
        [1 ..< unat (polled (registry srv2))]) = [Client_call 2 11 4]"
    by (simp add: s1_def)
  from keeps r st a b show ?thesis
    unfolding rv_def s1_def by blast
qed

section \<open>Arithmetic of the ring: masks, chunks, rounding up\<close>

lemma pow2_lt_word: "k < 64 \<Longrightarrow> (2::nat) ^ k < 2 ^ 64"
  by (rule power_strict_increasing) simp_all

lemma pow2_dvd_word: "k < 64 \<Longrightarrow> (2::nat) ^ k dvd 2 ^ 64"
  by (rule le_imp_power_dvd) simp

lemma unat_pow2: "k < 64 \<Longrightarrow> unat (2 ^ k :: size_t) = 2 ^ k"
proof -
  assume k: "k < 64"
  have "unat (of_nat (2 ^ k) :: size_t) = 2 ^ k mod 2 ^ 64"
    using unat_of_nat [of "2 ^ k", where ?'a = 64] by simp
  also have "\<dots> = 2 ^ k" using pow2_lt_word [OF k] by simp
  finally show ?thesis by simp
qed

lemma unat_mask_pow2: "k < 64 \<Longrightarrow> unat (x AND (2 ^ k - 1 :: size_t)) = unat x mod 2 ^ k"
proof -
  have "x AND (2 ^ k - 1) = take_bit k x"
    by (simp add: take_bit_eq_mask mask_eq_exp_minus_1)
  then have "unat (x AND (2 ^ k - 1)) = take_bit k (unat x)"
    by (simp only: unsigned_take_bit_eq)
  then show ?thesis by (simp only: take_bit_eq_mod)
qed

lemma unat_plus_mod: "unat (t + d :: size_t) = (unat t + unat d) mod 2 ^ 64"
  using unat_word_ariths(1) [of t d] by simp

lemma ring_head:
  fixes h t :: size_t
  assumes "k < 64"
  shows "unat h mod 2 ^ k = (unat t mod 2 ^ k + unat (h - t)) mod 2 ^ k"
proof -
  have "unat (t + (h - t)) mod 2 ^ k = (unat t + unat (h - t)) mod 2 ^ 64 mod 2 ^ k"
    by (simp only: unat_plus_mod)
  also have "\<dots> = (unat t + unat (h - t)) mod 2 ^ k"
    using pow2_dvd_word [OF assms] by (rule mod_mod_cancel)
  also have "\<dots> = (unat t mod 2 ^ k + unat (h - t)) mod 2 ^ k"
    by (simp only: mod_add_left_eq)
  finally show ?thesis by simp
qed

lemma ring_index:
  fixes t :: size_t
  assumes "k < 64"
  shows "unat ((t + of_nat i) AND (2 ^ k - 1)) = (unat t mod 2 ^ k + i) mod 2 ^ k"
proof -
  have oi: "unat (of_nat i :: size_t) = i mod 2 ^ 64"
    using unat_of_nat [of i, where ?'a = 64] by simp
  have "unat (t + of_nat i) mod 2 ^ k = (unat t + i mod 2 ^ 64) mod 2 ^ 64 mod 2 ^ k"
    by (simp only: unat_plus_mod oi)
  also have "\<dots> = (unat t + i mod 2 ^ 64) mod 2 ^ k"
    using pow2_dvd_word [OF assms] by (rule mod_mod_cancel)
  also have "\<dots> = (unat t mod 2 ^ k + i mod 2 ^ 64 mod 2 ^ k) mod 2 ^ k"
    by (simp only: mod_add_eq)
  also have "i mod 2 ^ 64 mod 2 ^ k = i mod 2 ^ k"
    using pow2_dvd_word [OF assms] by (rule mod_mod_cancel)
  also have "(unat t mod 2 ^ k + i mod 2 ^ k) mod 2 ^ k = (unat t mod 2 ^ k + i) mod 2 ^ k"
    by (simp only: mod_add_right_eq)
  finally show ?thesis by (simp only: unat_mask_pow2 [OF assms])
qed

lemma mod_add_inject:
  fixes a i j s :: nat
  assumes eq: "(a + i) mod s = (a + j) mod s" and i: "i < s" and j: "j < s"
  shows "i = j"
proof -
  have aux: "x = y" if "x \<le> y" "(a + x) mod s = (a + y) mod s" "y < s" for x y
  proof -
    from that(1) have "a + x \<le> a + y" by simp
    from mod_eq_dvd_iff_nat [OF this, of s] that(2) have "s dvd y - x" by simp
    moreover have "y - x < s" using that(3) by simp
    ultimately have "y - x = 0" by (meson dvd_imp_le not_less zero_less_iff_neq_zero)
    with that(1) show ?thesis by simp
  qed
  show ?thesis
  proof (cases "i \<le> j")
    case True
    then show ?thesis using aux [of i j] eq j by simp
  next
    case False
    then have "j \<le> i" by simp
    then show ?thesis using aux [of j i] eq i by simp
  qed
qed

text \<open>The bytes of a ring of \<open>s\<close> slots read from offset \<open>t\<close>: nat-level form.\<close>

lemma ring_write:
  fixes buf buf' dat :: "'a list"
  assumes s: "0 < s" and wt: "wt < s" and L: "L + n \<le> s"
    and wh: "wh = (wt + L) mod s"
    and new: "\<And>j. j < n \<Longrightarrow> buf' ! ((wh + j) mod s) = dat ! j"
    and old: "\<And>p. p < s \<Longrightarrow> (\<And>j. j < n \<Longrightarrow> p \<noteq> (wh + j) mod s) \<Longrightarrow> buf' ! p = buf ! p"
    and nd: "n \<le> length dat"
  shows "map (\<lambda>i. buf' ! ((wt + i) mod s)) [0 ..< L + n] =
         map (\<lambda>i. buf ! ((wt + i) mod s)) [0 ..< L] @ take n dat"
proof (rule nth_equalityI)
  show "length (map (\<lambda>i. buf' ! ((wt + i) mod s)) [0 ..< L + n]) =
        length (map (\<lambda>i. buf ! ((wt + i) mod s)) [0 ..< L] @ take n dat)"
    using nd by simp
next
  fix i assume "i < length (map (\<lambda>i. buf' ! ((wt + i) mod s)) [0 ..< L + n])"
  then have i: "i < L + n" by simp
  have whj: "(wh + j) mod s = (wt + (L + j)) mod s" for j
    by (simp add: wh mod_add_left_eq add.assoc)
  show "map (\<lambda>i. buf' ! ((wt + i) mod s)) [0 ..< L + n] ! i =
        (map (\<lambda>i. buf ! ((wt + i) mod s)) [0 ..< L] @ take n dat) ! i"
  proof (cases "i < L")
    case True
    have "(wt + i) mod s \<noteq> (wh + j) mod s" if "j < n" for j
    proof
      assume "(wt + i) mod s = (wh + j) mod s"
      then have "(wt + i) mod s = (wt + (L + j)) mod s" by (simp add: whj)
      moreover have "i < s" "L + j < s" using True that L by simp_all
      ultimately have "i = L + j" by (rule mod_add_inject)
      then show False using True by simp
    qed
    then have "buf' ! ((wt + i) mod s) = buf ! ((wt + i) mod s)"
      using old [of "(wt + i) mod s"] s by simp
    with True i show ?thesis by (simp add: nth_append)
  next
    case False
    then have "i - L < n" using i by simp
    moreover have "(wh + (i - L)) mod s = (wt + i) mod s"
      using whj [of "i - L"] False by simp
    ultimately have "buf' ! ((wt + i) mod s) = dat ! (i - L)"
      using new [of "i - L"] by simp
    with False i nd show ?thesis by (simp add: nth_append)
  qed
qed

lemma chunk_nth:
  "off + n \<le> length dst \<Longrightarrow> n \<le> length src \<Longrightarrow> p < length dst \<Longrightarrow>
   (take off dst @ take n src @ drop (off + n) dst) ! p =
     (if off \<le> p \<and> p < off + n then src ! (p - off) else dst ! p)"
  by (auto simp: nth_append min_def)

lemma chunk_length:
  "off + n \<le> length dst \<Longrightarrow> n \<le> length src \<Longrightarrow>
   length (take off dst @ take n src @ drop (off + n) dst) = length dst"
  by (simp add: min_absorb2)

lemma ring_no_wrap:
  fixes wt L s :: nat
  assumes "wt < s" "L < s" "wt \<le> (wt + L) mod s"
  shows "(wt + L) mod s = wt + L" "wt + L < s"
proof -
  show "wt + L < s"
  proof (rule ccontr)
    assume "\<not> wt + L < s"
    then have "(wt + L) mod s = wt + L - s"
      using assms(1,2) by (simp add: mod_if)
    with assms \<open>\<not> wt + L < s\<close> show False by arith
  qed
  then show "(wt + L) mod s = wt + L" by simp
qed

lemma ring_wrap:
  fixes wt L s :: nat
  assumes "wt < s" "L \<le> s" "(wt + L) mod s < wt"
  shows "(wt + L) mod s = wt + L - s" "s \<le> wt + L"
proof -
  show "s \<le> wt + L"
  proof (rule ccontr)
    assume "\<not> s \<le> wt + L"
    then have "(wt + L) mod s = wt + L" by simp
    with assms show False by simp
  qed
  then show "(wt + L) mod s = wt + L - s"
    using assms(1,2) by (simp add: mod_if)
qed

text \<open>Two chunks: at \<open>wh\<close> up to the end of the storage, then from offset 0.\<close>

lemma two_chunk_copy:
  fixes buf dat :: "'a list"
  assumes len: "length buf = s" and wt: "wt < s" and L: "L < s"
    and wh: "wh = (wt + L) mod s" and le: "wt \<le> wh" and ld: "ln \<le> length dat"
    and n1: "n1 = min ln (s - wh)" and n2: "n2 = min (ln - n1) wt"
    and m1: "m1 = take wh buf @ take n1 dat @ drop (wh + n1) buf"
    and m2: "m2 = take 0 m1 @ take n2 (drop n1 dat) @ drop (0 + n2) m1"
  shows "n1 + n2 = min ln (s - L)" "length m2 = s"
    "map (\<lambda>i. m2 ! ((wt + i) mod s)) [0 ..< L + (n1 + n2)] =
     map (\<lambda>i. buf ! ((wt + i) mod s)) [0 ..< L] @ take (n1 + n2) dat"
proof -
  from ring_no_wrap [OF wt L] le wh have whv: "wh = wt + L" and lt: "wt + L < s" by simp_all
  show sum: "n1 + n2 = min ln (s - L)" using whv lt n1 n2 by (auto simp: min_def)
  have b1: "n1 \<le> ln" "n1 \<le> s - wh" by (simp_all add: n1)
  have b2: "n2 \<le> ln - n1" "n2 \<le> wt" by (simp_all add: n2)
  have in1: "wh + n1 \<le> length buf" "n1 \<le> length dat"
    using b1 ld len whv lt by simp_all
  have lm1: "length m1 = s" unfolding m1 using chunk_length [OF in1] len by simp
  have in2: "0 + n2 \<le> length m1" "n2 \<le> length (drop n1 dat)"
    using b1 b2 ld lm1 wt by simp_all
  show lm2: "length m2 = s" unfolding m2 using chunk_length [OF in2] lm1 by simp
  have m1nth: "m1 ! p = (if wh \<le> p \<and> p < wh + n1 then dat ! (p - wh) else buf ! p)"
    if "p < s" for p
    unfolding m1 using chunk_nth [OF in1, of p] len that by simp
  have m2nth: "m2 ! p = (if p < n2 then dat ! (n1 + p) else m1 ! p)" if "p < s" for p
  proof -
    have "(take 0 m1 @ take n2 (drop n1 dat) @ drop (0 + n2) m1) ! p =
          (if 0 \<le> p \<and> p < 0 + n2 then drop n1 dat ! (p - 0) else m1 ! p)"
      using in2 lm1 that by (intro chunk_nth) simp_all
    then show ?thesis using in1(2) by (simp add: m2)
  qed
  have full: "n1 = s - wh" if "0 < n2" using that n1 n2 by (auto simp: min_def)
  show "map (\<lambda>i. m2 ! ((wt + i) mod s)) [0 ..< L + (n1 + n2)] =
        map (\<lambda>i. buf ! ((wt + i) mod s)) [0 ..< L] @ take (n1 + n2) dat"
  proof (rule ring_write [where wh = wh and buf = buf])
    show "0 < s" using wt by simp
    show "wt < s" by (rule wt)
    show "L + (n1 + n2) \<le> s" using sum L by simp
    show "wh = (wt + L) mod s" by (rule wh)
    show "n1 + n2 \<le> length dat" using sum ld by simp
  next
    fix j assume j: "j < n1 + n2"
    show "m2 ! ((wh + j) mod s) = dat ! j"
    proof (cases "j < n1")
      case True
      then have "wh + j < s" using b1 whv lt by simp
      moreover have "\<not> wh + j < n2" using b2 le by simp
      ultimately show ?thesis using True m2nth [of "wh + j"] m1nth [of "wh + j"] by simp
    next
      case False
      with j have "0 < n2" by simp
      from full [OF this] have n1v: "n1 = s - wh" .
      have "wh + j = s + (j - n1)" using False n1v whv lt by simp
      moreover have "j - n1 < n2" using j False by simp
      moreover have "j - n1 < s" using \<open>j - n1 < n2\<close> b2 wt by simp
      ultimately have "(wh + j) mod s = j - n1" by simp
      note this \<open>j - n1 < n2\<close> \<open>j - n1 < s\<close>
      moreover have "n1 + (j - n1) = j" using False by simp
      ultimately show ?thesis using m2nth [of "j - n1"] False by simp
    qed
  next
    fix p assume p: "p < s" and other: "\<And>j. j < n1 + n2 \<Longrightarrow> p \<noteq> (wh + j) mod s"
    have a: "\<not> p < n2"
    proof
      assume pn: "p < n2"
      then have n1v: "n1 = s - wh" using full by simp
      have "(wh + (n1 + p)) mod s = p" using n1v whv lt p by simp
      with other [of "n1 + p"] pn show False by simp
    qed
    have b: "\<not> (wh \<le> p \<and> p < wh + n1)"
    proof
      assume c: "wh \<le> p \<and> p < wh + n1"
      then have j: "p - wh < n1 + n2" by arith
      have "p = (wh + (p - wh)) mod s" using c p by simp
      with other [OF j] show False by simp
    qed
    from a b p show "m2 ! p = buf ! p" using m2nth [of p] m1nth [of p] by auto
  qed
qed

text \<open>One chunk: the free bytes lie between \<open>wh\<close> and \<open>wt\<close>.\<close>

lemma one_chunk_copy:
  fixes buf dat :: "'a list"
  assumes len: "length buf = s" and wt: "wt < s" and L: "L \<le> s"
    and wh: "wh = (wt + L) mod s" and gt: "wh < wt" and ld: "ln \<le> length dat"
    and n: "n = min ln (wt - wh)"
    and m1: "m1 = take wh buf @ take n dat @ drop (wh + n) buf"
  shows "n = min ln (s - L)" "length m1 = s"
    "map (\<lambda>i. m1 ! ((wt + i) mod s)) [0 ..< L + n] =
     map (\<lambda>i. buf ! ((wt + i) mod s)) [0 ..< L] @ take n dat"
proof -
  from ring_wrap [OF wt L] gt wh have whv: "wh = wt + L - s" and ge: "s \<le> wt + L" by simp_all
  have free: "wt - wh = s - L" using whv ge wt L by simp
  show nv: "n = min ln (s - L)" using n free by simp
  have bn: "n \<le> ln" "n \<le> wt - wh" by (simp_all add: n)
  have in1: "wh + n \<le> length buf" "n \<le> length dat"
    using bn ld len gt wt by simp_all
  show lm1: "length m1 = s" unfolding m1 using chunk_length [OF in1] len by simp
  have m1nth: "m1 ! p = (if wh \<le> p \<and> p < wh + n then dat ! (p - wh) else buf ! p)"
    if "p < s" for p
    unfolding m1 using chunk_nth [OF in1, of p] len that by simp
  show "map (\<lambda>i. m1 ! ((wt + i) mod s)) [0 ..< L + n] =
        map (\<lambda>i. buf ! ((wt + i) mod s)) [0 ..< L] @ take n dat"
  proof (rule ring_write [where wh = wh and buf = buf])
    show "0 < s" using wt by simp
    show "wt < s" by (rule wt)
    show "L + n \<le> s" using nv L by simp
    show "wh = (wt + L) mod s" by (rule wh)
    show "n \<le> length dat" using nv ld by simp
  next
    fix j assume j: "j < n"
    then have "wh + j < s" using bn gt wt by simp
    then show "m1 ! ((wh + j) mod s) = dat ! j" using m1nth [of "wh + j"] j by simp
  next
    fix p assume p: "p < s" and other: "\<And>j. j < n \<Longrightarrow> p \<noteq> (wh + j) mod s"
    have "\<not> (wh \<le> p \<and> p < wh + n)"
    proof
      assume c: "wh \<le> p \<and> p < wh + n"
      then have j: "p - wh < n" by arith
      have "p = (wh + (p - wh)) mod s" using c p by simp
      with other [OF j] show False by simp
    qed
    with p show "m1 ! p = buf ! p" using m1nth [of p] by auto
  qed
qed

lemma unat_min_sz: "unat (min_sz a b) = min (unat a) (unat b)"
  by (simp add: min_sz_def word_less_nat_alt min_def)

lemma unat_plus_small:
  "unat t + unat d < 2 ^ 64 \<Longrightarrow> unat (t + d :: size_t) = unat t + unat d"
  by (simp only: unat_plus_mod mod_less)

lemma pending_nat:
  "k < 64 \<Longrightarrow> size_io b = 2 ^ k \<Longrightarrow>
   pending b = map (\<lambda>i. buffer b ! ((unat (tail b) mod 2 ^ k + i) mod 2 ^ k))
                 [0 ..< unat (head b - tail b)]"
  by (simp add: pending_def ring_index)

lemma append_copy_ok:
  assumes k: "k < 64" and S: "size_io b = 2 ^ k" and lenb: "length (buffer b) = 2 ^ k"
    and room: "unat (head b - tail b) < 2 ^ k" and dat: "unat len \<le> length data"
  shows "\<exists>b' n. append_copy b data len = Inr (b', n) \<and>
           unat n = min (unat len) (2 ^ k - unat (head b - tail b)) \<and>
           head b' = head b + n \<and> tail b' = tail b \<and> size_io b' = size_io b \<and>
           length (buffer b') = 2 ^ k \<and>
           unat (head b' - tail b') = unat (head b - tail b) + unat n \<and>
           pending b' = pending b @ take (unat n) data \<and>
           (\<exists>n1 n2. n1 + n2 = unat n \<and> n2 \<le> unat (head b AND (size_io b - 1)) \<and>
              unat (head b AND (size_io b - 1)) + n1 \<le> 2 ^ k \<and>
              buffer b' = two_chunks (buffer b) (unat (head b AND (size_io b - 1))) data n1 n2)"
proof -
  define s :: nat where "s = 2 ^ k"
  define L where "L = unat (head b - tail b)"
  define whead where "whead = head b AND (size_io b - 1)"
  define wtail where "wtail = tail b AND (size_io b - 1)"
  define wh where "wh = unat (head b) mod s"
  define wt where "wt = unat (tail b) mod s"
  define ln where "ln = unat len"
  have s0: "0 < s" by (simp add: s_def)
  have s64: "s < 2 ^ 64" unfolding s_def by (rule pow2_lt_word [OF k])
  have uS: "unat (size_io b) = s" by (simp add: S s_def unat_pow2 [OF k])
  have uwh: "unat whead = wh" by (simp add: whead_def wh_def S s_def unat_mask_pow2 [OF k])
  have uwt: "unat wtail = wt" by (simp add: wtail_def wt_def S s_def unat_mask_pow2 [OF k])
  have wts: "wt < s" and whs: "wh < s" using s0 by (simp_all add: wt_def wh_def)
  have Ls: "L < s" using room by (simp add: L_def s_def)
  have whv: "wh = (wt + L) mod s"
    unfolding wh_def wt_def L_def s_def by (rule ring_head [OF k])
  have lenb': "length (buffer b) = s" by (simp add: lenb s_def)
  have dat': "ln \<le> length data" using dat by (simp add: ln_def)
  have pend: "pending b = map (\<lambda>i. buffer b ! ((wt + i) mod s)) [0 ..< L]"
    by (simp add: pending_nat [OF k S] wt_def s_def L_def)
  have grow: "unat (head b + n - tail b) = L + unat n" if "L + unat n \<le> s" for n
  proof -
    have eq: "head b + n - tail b = (head b - tail b) + n" by simp
    have "unat (head b - tail b) + unat n < 2 ^ 64" using that s64 by (simp add: L_def)
    from unat_plus_small [OF this] show ?thesis by (simp only: eq L_def)
  qed
  show ?thesis
  proof (cases "wtail \<le> whead")
    case True
    then have le: "wt \<le> wh" by (simp add: word_le_nat_alt uwh uwt)
    define first_chunk where "first_chunk = min_sz len (size_io b - whead)"
    define second_chunk where "second_chunk = min_sz (len - first_chunk) wtail"
    define n1 where "n1 = min ln (s - wh)"
    define n2 where "n2 = min (ln - n1) wt"
    define m1 where "m1 = take wh (buffer b) @ take n1 data @ drop (wh + n1) (buffer b)"
    define m2 where "m2 = take 0 m1 @ take n2 (drop n1 data) @ drop (0 + n2) m1"
    have "whead \<le> size_io b" using whs by (simp add: word_le_nat_alt uwh uS)
    then have "unat (size_io b - whead) = s - wh" by (simp add: unat_sub uwh uS)
    then have u1: "unat first_chunk = n1"
      by (simp add: first_chunk_def unat_min_sz n1_def ln_def)
    have "first_chunk \<le> len" by (simp add: word_le_nat_alt u1 n1_def ln_def)
    then have "unat (len - first_chunk) = ln - n1" by (simp add: unat_sub u1 ln_def)
    then have u2: "unat second_chunk = n2"
      by (simp add: second_chunk_def unat_min_sz n2_def uwt)
    note tc = two_chunk_copy [OF lenb' wts Ls whv le dat' n1_def n2_def m1_def m2_def]
    have sum: "n1 + n2 = min ln (s - L)" by (rule tc(1))
    then have fits: "L + (n1 + n2) \<le> s" using Ls by simp
    then have "unat first_chunk + unat second_chunk < 2 ^ 64" using s64 by (simp add: u1 u2)
    then have ut: "unat (first_chunk + second_chunk) = n1 + n2"
      by (simp add: unat_plus_small u1 u2)
    have b1: "n1 \<le> ln" "n1 \<le> s - wh" by (simp_all add: n1_def)
    have b2: "n2 \<le> ln - n1" "n2 \<le> wt" by (simp_all add: n2_def)
    have in1: "wh + n1 \<le> length (buffer b)" "n1 \<le> length data"
      using b1 lenb' whs dat' by simp_all
    have c1: "memcpy (buffer b) wh data n1 = Inr m1"
      using in1 by (simp add: memcpy_def m1_def)
    have c2: "memcpy m1 0 (drop n1 data) n2 = Inr m2"
    proof -
      have "length m1 = s" unfolding m1_def using chunk_length [OF in1] lenb' by simp
      moreover have "n2 \<le> s" "n2 \<le> length data - n1" using wts dat' b2 by simp_all
      ultimately show ?thesis by (simp add: memcpy_def m2_def)
    qed
    define b' where "b' = b\<lparr>buffer := m2, head := head b + (first_chunk + second_chunk)\<rparr>"
    have res: "append_copy b data len = Inr (b', first_chunk + second_chunk)"
      using True c1 c2
      by (simp add: append_copy_def Let_def whead_def [symmetric] wtail_def [symmetric]
          first_chunk_def [symmetric] second_chunk_def [symmetric] uwh u1 u2 b'_def)
    have ul: "unat (head b' - tail b') = L + (n1 + n2)"
      using grow [of "first_chunk + second_chunk"] fits by (simp add: b'_def ut)
    have "pending b' = map (\<lambda>i. m2 ! ((wt + i) mod s)) [0 ..< L + (n1 + n2)]"
      using pending_nat [OF k, of b'] ul by (simp add: b'_def S wt_def s_def)
    also have "\<dots> = pending b @ take (n1 + n2) data" by (simp only: tc(3) pend)
    finally have "pending b' = pending b @ take (unat (first_chunk + second_chunk)) data"
      by (simp add: ut)
    moreover have "length (buffer b') = 2 ^ k" using tc(2) by (simp add: b'_def s_def)
    moreover have "n1 + n2 = unat (first_chunk + second_chunk) \<and> n2 \<le> unat whead \<and>
        unat whead + n1 \<le> 2 ^ k \<and> buffer b' = two_chunks (buffer b) (unat whead) data n1 n2"
      using ut b2(2) le in1(1) lenb
      by (simp add: uwh b'_def m2_def m1_def two_chunks_def)
    then have "\<exists>n1 n2. n1 + n2 = unat (first_chunk + second_chunk) \<and>
        n2 \<le> unat (head b AND (size_io b - 1)) \<and>
        unat (head b AND (size_io b - 1)) + n1 \<le> 2 ^ k \<and>
        buffer b' = two_chunks (buffer b) (unat (head b AND (size_io b - 1))) data n1 n2"
      unfolding whead_def by blast
    ultimately show ?thesis
      using res ut sum ul by (simp add: b'_def ln_def s_def L_def)
  next
    case False
    then have gt: "wh < wt" by (simp add: word_le_nat_alt uwh uwt)
    define chunk where "chunk = min_sz len (wtail - whead)"
    define n where "n = min ln (wt - wh)"
    define m1 where "m1 = take wh (buffer b) @ take n data @ drop (wh + n) (buffer b)"
    have "whead \<le> wtail" using gt by (simp add: word_le_nat_alt uwh uwt)
    then have "unat (wtail - whead) = wt - wh" by (simp add: unat_sub uwh uwt)
    then have u1: "unat chunk = n" by (simp add: chunk_def unat_min_sz n_def ln_def)
    have Ls': "L \<le> s" using Ls by simp
    note oc = one_chunk_copy [OF lenb' wts Ls' whv gt dat' n_def m1_def]
    have nv: "n = min ln (s - L)" by (rule oc(1))
    then have fits: "L + n \<le> s" using Ls by simp
    have bn: "n \<le> ln" "n \<le> wt - wh" by (simp_all add: n_def)
    have c1: "memcpy (buffer b) wh data n = Inr m1"
      using lenb' wts gt dat' bn by (simp add: memcpy_def m1_def)
    define b' where "b' = b\<lparr>buffer := m1, head := head b + chunk\<rparr>"
    have res: "append_copy b data len = Inr (b', chunk)"
      using False c1
      by (simp add: append_copy_def Let_def whead_def [symmetric] wtail_def [symmetric]
          chunk_def [symmetric] uwh u1 b'_def)
    have ul: "unat (head b' - tail b') = L + n"
      using grow [of chunk] fits by (simp add: b'_def u1)
    have "pending b' = map (\<lambda>i. m1 ! ((wt + i) mod s)) [0 ..< L + n]"
      using pending_nat [OF k, of b'] ul by (simp add: b'_def S wt_def s_def)
    also have "\<dots> = pending b @ take n data" by (simp only: oc(3) pend)
    finally have "pending b' = pending b @ take (unat chunk) data" by (simp add: u1)
    moreover have "length (buffer b') = 2 ^ k" using oc(2) by (simp add: b'_def s_def)
    moreover have "n + 0 = unat chunk \<and> 0 \<le> unat whead \<and>
        unat whead + n \<le> 2 ^ k \<and> buffer b' = two_chunks (buffer b) (unat whead) data n 0"
      using u1 bn gt wts
      by (simp add: uwh b'_def m1_def two_chunks_def s_def)
    then have "\<exists>n1 n2. n1 + n2 = unat chunk \<and>
        n2 \<le> unat (head b AND (size_io b - 1)) \<and>
        unat (head b AND (size_io b - 1)) + n1 \<le> 2 ^ k \<and>
        buffer b' = two_chunks (buffer b) (unat (head b AND (size_io b - 1))) data n1 n2"
      unfolding whead_def by blast
    ultimately show ?thesis
      using res u1 nv ul by (simp add: b'_def ln_def s_def L_def)
  qed
qed









lemma iobuff_wfD:
  assumes "iobuff_wf b"
  obtains k where "k < 64" "size_io b = 2 ^ k" "length (buffer b) = 2 ^ k"
    "unat (size_io b) = 2 ^ k" "unat (head b - tail b) \<le> 2 ^ k"
proof -
  from assms obtain k where k: "k < 64" "size_io b = 2 ^ k"
    by (auto simp: iobuff_wf_def is_pow2_def)
  then have u: "unat (size_io b) = 2 ^ k" by (simp add: unat_pow2)
  with assms have "length (buffer b) = 2 ^ k" "unat (head b - tail b) \<le> 2 ^ k"
    by (simp_all add: iobuff_wf_def word_le_nat_alt)
  with k u show ?thesis by (intro that)
qed

lemma iobuff_wfI:
  "k < 64 \<Longrightarrow> size_io b = 2 ^ k \<Longrightarrow> length (buffer b) = 2 ^ k \<Longrightarrow>
   unat (head b - tail b) \<le> 2 ^ k \<Longrightarrow> iobuff_wf b"
  by (auto simp: iobuff_wf_def is_pow2_def word_le_nat_alt unat_pow2)

lemma append_copy_wf:
  assumes wf: "iobuff_wf b" and nf: "\<not> iobuff_full b" and dat: "unat len \<le> length data"
  shows "\<exists>b' n. append_copy b data len = Inr (b', n) \<and> iobuff_wf b' \<and>
           unat n = min (unat len) (unat (size_io b) - unat (head b - tail b)) \<and>
           head b' = head b + n \<and> tail b' = tail b \<and> size_io b' = size_io b \<and>
           unat (head b' - tail b') = unat (head b - tail b) + unat n \<and>
           pending b' = pending b @ take (unat n) data \<and>
           (\<exists>n1 n2. n1 + n2 = unat n \<and> n2 \<le> unat (head b AND (size_io b - 1)) \<and>
              unat (head b AND (size_io b - 1)) + n1 \<le> length (buffer b) \<and>
              buffer b' = two_chunks (buffer b) (unat (head b AND (size_io b - 1))) data n1 n2)"
proof -
  from wf obtain k where k: "k < 64" "size_io b = 2 ^ k" "length (buffer b) = 2 ^ k"
    "unat (size_io b) = 2 ^ k" "unat (head b - tail b) \<le> 2 ^ k"
    by (rule iobuff_wfD)
  have "unat (head b - tail b) \<noteq> unat (size_io b)"
    using nf by (simp add: iobuff_full_def word_unat_eq_iff)
  with k have room: "unat (head b - tail b) < 2 ^ k" by simp
  from append_copy_ok [OF k(1,2,3) room dat]
  obtain b' n where r: "append_copy b data len = Inr (b', n)"
    "unat n = min (unat len) (2 ^ k - unat (head b - tail b))"
    "head b' = head b + n" "tail b' = tail b" "size_io b' = size_io b"
    "length (buffer b') = 2 ^ k"
    "unat (head b' - tail b') = unat (head b - tail b) + unat n"
    "pending b' = pending b @ take (unat n) data"
    "\<exists>n1 n2. n1 + n2 = unat n \<and> n2 \<le> unat (head b AND (size_io b - 1)) \<and>
       unat (head b AND (size_io b - 1)) + n1 \<le> 2 ^ k \<and>
       buffer b' = two_chunks (buffer b) (unat (head b AND (size_io b - 1))) data n1 n2"
    by blast
  have "unat (head b' - tail b') \<le> 2 ^ k" using r(2,7) room by simp
  then have "iobuff_wf b'" using k r(1-8) by (intro iobuff_wfI [of k]) simp_all
  with r k(3,4) show ?thesis by simp
qed









text \<open>
  An append that has to grow a buffer whose storage is not a block of its own, as
  in every buffer from \<open>iobuff_alloc\<close>, ends the program.
\<close>

lemma iobuff_append_interior_growth:
  "\<not> own_block b \<Longrightarrow> len \<noteq> 0 \<Longrightarrow> \<not> iobuff_full b \<Longrightarrow>
   (scast (iobuff_space b) :: size_t) < len \<Longrightarrow>
   iobuff_append b data len True r = Inl Invalid_free"
  by (simp add: iobuff_append_def Let_def)



section \<open>Claims on the circular buffer\<close>



text \<open>
  C8. For every well-formed buffer with free space \<open>f = size - (head - tail)\<close>: an
  append of \<open>len > f\<close> bytes with growth disabled does not fail, returns \<open>f\<close>,
  advances \<open>head\<close> by \<open>f\<close> and leaves \<open>tail\<close> and the size alone; the pending bytes
  are the former ones followed by the first \<open>f\<close> bytes of the input, written as
  two chunks (the second possibly empty): one from the masked \<open>head\<close> on, the other
  from the start of the storage; and the buffer is full. An append of
  length 0, or onto a full buffer, returns 0 and the buffer as it was, whether or
  not growth is allowed.
\<close>

theorem iobuff_append_partial_write:
  assumes "iobuff_wf b"
  shows "(size_io b - (head b - tail b) < len \<and> unat len \<le> length data \<longrightarrow>
           (\<exists>b'. iobuff_append b data len False r =
                    Inr (b', size_io b - (head b - tail b)) \<and>
                 head b' = head b + (size_io b - (head b - tail b)) \<and>
                 tail b' = tail b \<and> size_io b' = size_io b \<and>
                 pending b' = pending b @ take (unat (size_io b - (head b - tail b))) data \<and>
                 (\<exists>n1 n2. n1 + n2 = unat (size_io b - (head b - tail b)) \<and>
                    n2 \<le> unat (head b AND (size_io b - 1)) \<and>
                    unat (head b AND (size_io b - 1)) + n1 \<le> length (buffer b) \<and>
                    buffer b' =
                      two_chunks (buffer b) (unat (head b AND (size_io b - 1))) data n1 n2) \<and>
                 iobuff_wf b' \<and> iobuff_full b')) \<and>
         iobuff_append b data 0 g r = Inr (b, 0) \<and>
         (iobuff_full b \<longrightarrow> iobuff_append b data len g r = Inr (b, 0))"
proof (intro conjI impI)
  show "iobuff_append b data 0 g r = Inr (b, 0)" by (simp add: iobuff_append_def)
next
  assume "iobuff_full b"
  then show "iobuff_append b data len g r = Inr (b, 0)" by (simp add: iobuff_append_def)
next
  define f where "f = size_io b - (head b - tail b)"
  assume "size_io b - (head b - tail b) < len \<and> unat len \<le> length data"
  then have less: "f < len" and dat: "unat len \<le> length data" by (simp_all add: f_def)
  have le: "head b - tail b \<le> size_io b" using assms by (simp add: iobuff_wf_def)
  then have uf: "unat f = unat (size_io b) - unat (head b - tail b)"
    by (simp add: f_def unat_sub)
  have len0: "len \<noteq> 0" using less by auto
  have "\<exists>b'. iobuff_append b data len False r = Inr (b', f) \<and> head b' = head b + f \<and>
          tail b' = tail b \<and> size_io b' = size_io b \<and>
          pending b' = pending b @ take (unat f) data \<and>
          (\<exists>n1 n2. n1 + n2 = unat f \<and> n2 \<le> unat (head b AND (size_io b - 1)) \<and>
             unat (head b AND (size_io b - 1)) + n1 \<le> length (buffer b) \<and>
             buffer b' = two_chunks (buffer b) (unat (head b AND (size_io b - 1))) data n1 n2) \<and>
          iobuff_wf b' \<and> iobuff_full b'"
  proof (cases "iobuff_full b")
    case True
    then have f0: "f = 0" by (simp add: f_def iobuff_full_def)
    from assms obtain k where k: "k < 64" "size_io b = 2 ^ k" "length (buffer b) = 2 ^ k"
      by (rule iobuff_wfD)
    have "unat (head b AND (size_io b - 1)) < 2 ^ k"
      using k by (simp add: unat_mask_pow2)
    then have "0 + 0 = unat f \<and> 0 \<le> unat (head b AND (size_io b - 1)) \<and>
        unat (head b AND (size_io b - 1)) + 0 \<le> length (buffer b) \<and>
        buffer b = two_chunks (buffer b) (unat (head b AND (size_io b - 1))) data 0 0"
      using k f0 by (simp add: two_chunks_def)
    then have "\<exists>n1 n2. n1 + n2 = unat f \<and> n2 \<le> unat (head b AND (size_io b - 1)) \<and>
        unat (head b AND (size_io b - 1)) + n1 \<le> length (buffer b) \<and>
        buffer b = two_chunks (buffer b) (unat (head b AND (size_io b - 1))) data n1 n2"
      by blast
    with True assms f0 show ?thesis by (simp add: iobuff_append_def)
  next
    case False
    from append_copy_wf [OF assms False dat] obtain b' n where r:
      "append_copy b data len = Inr (b', n)" "iobuff_wf b'"
      "unat n = min (unat len) (unat (size_io b) - unat (head b - tail b))"
      "head b' = head b + n" "tail b' = tail b" "size_io b' = size_io b"
      "unat (head b' - tail b') = unat (head b - tail b) + unat n"
      "pending b' = pending b @ take (unat n) data"
      "\<exists>n1 n2. n1 + n2 = unat n \<and> n2 \<le> unat (head b AND (size_io b - 1)) \<and>
         unat (head b AND (size_io b - 1)) + n1 \<le> length (buffer b) \<and>
         buffer b' = two_chunks (buffer b) (unat (head b AND (size_io b - 1))) data n1 n2"
      by blast
    have "unat f < unat len" using less by (simp add: word_less_nat_alt)
    with r(3) uf have "unat n = unat f" by simp
    then have nf: "n = f" by (simp add: word_unat_eq_iff)
    have "unat (head b' - tail b') = unat (size_io b')"
      using r(6,7) \<open>unat n = unat f\<close> uf le by (simp add: word_le_nat_alt)
    then have "iobuff_full b'" by (simp add: iobuff_full_def word_unat_eq_iff)
    moreover have "iobuff_append b data len False r = Inr (b', f)"
      using False len0 r(1) nf by (simp add: iobuff_append_def Let_def)
    ultimately show ?thesis using r nf by auto
  qed
  then show "\<exists>b'. iobuff_append b data len False r =
                    Inr (b', size_io b - (head b - tail b)) \<and>
                 head b' = head b + (size_io b - (head b - tail b)) \<and>
                 tail b' = tail b \<and> size_io b' = size_io b \<and>
                 pending b' = pending b @ take (unat (size_io b - (head b - tail b))) data \<and>
                 (\<exists>n1 n2. n1 + n2 = unat (size_io b - (head b - tail b)) \<and>
                    n2 \<le> unat (head b AND (size_io b - 1)) \<and>
                    unat (head b AND (size_io b - 1)) + n1 \<le> length (buffer b) \<and>
                    buffer b' =
                      two_chunks (buffer b) (unat (head b AND (size_io b - 1))) data n1 n2) \<and>
                 iobuff_wf b' \<and> iobuff_full b'"
    by (simp only: f_def)
qed

text \<open>
  The theorem at \<open>buf_wrapped\<close>, which has room for 4 bytes: of the 6 bytes 1 to 6,
  the first 4 are written (two before the pending bytes, after \<open>ij\<close> at the front of
  the storage) and the result is \<open>buf_full\<close>; appending to \<open>buf_full\<close> returns 0.
\<close>

theorem iobuff_append_partial_write_witness:
  "iobuff_wf buf_wrapped \<and> size_io buf_wrapped - (head buf_wrapped - tail buf_wrapped) < 6 \<and>
   unat (6 :: size_t) \<le> length [1, 2, 3, 4, 5, 6 :: byte] \<and>
   iobuff_append buf_wrapped [1, 2, 3, 4, 5, 6] 6 False None = Inr (buf_full, 4) \<and>
   pending buf_full = [103, 104, 105, 106, 1, 2, 3, 4] \<and>
   iobuff_wf buf_full \<and> iobuff_full buf_full \<and>
   iobuff_append buf_full [9] 1 True None = Inr (buf_full, 0)"
proof -
  have p2: "is_pow2 (8 :: size_t)"
    unfolding is_pow2_def by (rule bexI [of _ 3]) simp_all
  have wf: "iobuff_wf buf_wrapped" using p2 by (simp add: iobuff_wf_def buf_wrapped_def)
  have f: "size_io buf_wrapped - (head buf_wrapped - tail buf_wrapped) = 4"
    by (simp add: buf_wrapped_def)
  have run: "iobuff_append buf_wrapped [1, 2, 3, 4, 5, 6] 6 False None = Inr (buf_full, 4)"
    by (simp add: iobuff_append_def append_copy_def buf_wrapped_def buf_full_def
        iobuff_full_def iobuff_space_def memcpy_def min_sz_def Let_def)
  have pw: "pending buf_wrapped = [103, 104, 105, 106]"
    by (simp add: pending_def buf_wrapped_def upt_rec)
  from iobuff_append_partial_write [OF wf, of 6 "[1, 2, 3, 4, 5, 6]" None] f run pw
  have a: "pending buf_full = [103, 104, 105, 106, 1, 2, 3, 4] \<and> iobuff_wf buf_full \<and>
           iobuff_full buf_full"
    by simp
  then have "iobuff_wf buf_full" and "iobuff_full buf_full" by simp_all
  from iobuff_append_partial_write [OF this(1), of 1 "[9]" None True] this(2)
  have b: "iobuff_append buf_full [9] 1 True None = Inr (buf_full, 0)" by simp
  from wf f run a b show ?thesis by simp
qed

end
